theory Spec2Isabelle
  imports Main "HOL-Library.Word" "HOL-Library.Multiset"
begin

section \<open>Errors\<close>

text \<open>
  Go panics are values of \<open>error\<close>.  \<open>IndexOutOfRange\<close> is the runtime panic of an
  index expression \<open>l[x]\<close> with \<open>x\<close> outside \<open>0 .. len(l)-1\<close>, \<open>ElementExpected\<close> is the
  explicit \<open>panic(fmt.Errorf("should not happen - element expected in list"))\<close> of
  \<open>removeFromList\<close>, \<open>CloseOfClosedChannel\<close> and \<open>SendOnClosedChannel\<close> are the channel
  panics of the Go runtime.
\<close>

datatype error = IndexOutOfRange | ElementExpected | CloseOfClosedChannel | SendOnClosedChannel

section \<open>The status manager (eth/stagedsync/exec3\_status.go)\<close>

text \<open>
  Go's \<open>int\<close> is modelled by \<open>int\<close>: the only arithmetic on task indices is \<open>x++\<close> below
  \<open>maxAllComplete\<close> and the two sums of \<open>hasNoGap\<close>, which stay far from the 64-bit bounds
  for lists that fit in memory.  A slice is a list; the functions below return the
  slice value that the source assigns back to the field it was read from.
\<close>

subsection \<open>sort.SearchInts\<close>

text \<open>
  \<open>sort.SearchInts(a, x)\<close> is \<open>sort.Search(len(a), func(i) { return a[i] >= x })\<close>,
  the binary search
  \<^verbatim>\<open>i, j := 0, n; for i < j { h := int(uint(i+j) >> 1); if !f(h) { i = h + 1 } else { j = h } }; return i\<close>.
  Every probe \<open>h\<close> satisfies \<open>i \<le> h < j \<le> len(a)\<close>, so it reads inside the slice.
\<close>

function Search_loop :: "int list \<Rightarrow> int \<Rightarrow> nat \<Rightarrow> nat \<Rightarrow> nat" where
  "Search_loop a x i j =
     (if i < j then
        (let h = (i + j) div 2 in
         if \<not> (a ! h \<ge> x) then Search_loop a x (h + 1) j else Search_loop a x i h)
      else i)"
  by pat_completeness auto
termination
  by (relation "measure (\<lambda>(a, x, i, j). j - i)") auto

declare Search_loop.simps [simp del]

definition SearchInts :: "int list \<Rightarrow> int \<Rightarrow> nat" where
  "SearchInts a x = Search_loop a x 0 (length a)"

subsection \<open>The state and its list helpers\<close>

text \<open>
  The inner maps \<open>map[int]bool\<close> of \<open>dependency\<close> and \<open>blocker\<close> are only ever
  assigned \<open>true\<close> and only their keys are read (\<open>len\<close>, \<open>range\<close>, \<open>delete\<close>), so an inner
  map is its key set.  An absent key of the outer map (a nil inner map) is \<open>None\<close>.
  A nil outer map reads like the empty map and the source allocates it before
  writing, so nil and empty outer maps are both \<open>Map.empty\<close>.
\<close>

record execStatusManager =
  pending :: "int list"
  inProgress :: "int list"
  complete :: "int list"
  dependency :: "int \<rightharpoonup> int set"
  blocker :: "int \<rightharpoonup> int set"

definition newStatusManager :: "nat \<Rightarrow> execStatusManager" where
  "newStatusManager numTasks =
     \<lparr> pending = map int [0 ..< numTasks],
       inProgress = [],
       complete = [],
       dependency = Map.empty,
       blocker = (\<lambda>i. if 0 \<le> i \<and> i < int numTasks then Some {} else None) \<rparr>"

text \<open>
  \<open>a := append(l[:x+1], l[x:]...); a[x] = v\<close>: the first \<open>x+1\<close> elements followed by
  the elements from \<open>x\<close> on, then position \<open>x\<close> overwritten.
\<close>

definition insertInList :: "int list \<Rightarrow> int \<Rightarrow> int list" where
  "insertInList l v =
     (if length l = 0 \<or> v > l ! (length l - 1) then l @ [v]
      else
        (let x = SearchInts l v in
         if x < length l \<and> l ! x = v then l
         else (take (x + 1) l @ drop x l)[x := v]))"

text \<open>
  \<open>removeFromList\<close> reads \<open>l[x]\<close> right after the search, guarded only by \<open>x == -1\<close>;
  the read panics when \<open>x = len(l)\<close>.
\<close>

definition removeFromList :: "int list \<Rightarrow> int \<Rightarrow> bool \<Rightarrow> error + int list" where
  "removeFromList l v expect =
     (let x = SearchInts l v in
      if int x = - 1 then (if expect then Inl ElementExpected else Inr l)
      else if \<not> x < length l then Inl IndexOutOfRange
      else if l ! x \<noteq> v then (if expect then Inl ElementExpected else Inr l)
      else if x = 0 then Inr (drop 1 l)
      else if x = length l - 1 then Inr (take (length l - 1) l)
      else Inr (take x l @ drop (x + 1) l))"

definition takeNextPending :: "execStatusManager \<Rightarrow> int \<times> execStatusManager" where
  "takeNextPending m =
     (if length (pending m) = 0 then (- 1, m)
      else
        (let x = pending m ! 0 in
         (x, m\<lparr> pending := drop 1 (pending m),
                inProgress := insertInList (inProgress m) x \<rparr>)))"

text \<open>\<open>hasNoGap\<close> is only called on non-empty slices.\<close>

definition hasNoGap :: "int list \<Rightarrow> bool" where
  "hasNoGap l = (l ! 0 + int (length l) = l ! (length l - 1) + 1)"

text \<open>
  The loop \<open>for i := len-2; i >= 0; i--\<close> of \<open>maxAllComplete\<close>; the argument is
  \<open>i + 1\<close>, and falling out of the loop reaches the final \<open>return -1\<close>.
\<close>

fun maxAllComplete_loop :: "int list \<Rightarrow> nat \<Rightarrow> int" where
  "maxAllComplete_loop c 0 = - 1"
| "maxAllComplete_loop c (Suc i) =
     (if hasNoGap (take (i + 1) c) then c ! i else maxAllComplete_loop c i)"

definition maxAllComplete :: "execStatusManager \<Rightarrow> int" where
  "maxAllComplete m =
     (let c = complete m in
      if length c = 0 \<or> c ! 0 \<noteq> 0 then - 1
      else if c ! (length c - 1) = int (length c) - 1 then c ! (length c - 1)
      else maxAllComplete_loop c (length c - 1))"

definition pushPending :: "execStatusManager \<Rightarrow> int \<Rightarrow> execStatusManager" where
  "pushPending m tx = m\<lparr> pending := insertInList (pending m) tx \<rparr>"

definition markComplete :: "execStatusManager \<Rightarrow> int \<Rightarrow> error + execStatusManager" where
  "markComplete m tx =
     (case removeFromList (inProgress m) tx True of
        Inl e \<Rightarrow> Inl e
      | Inr l \<Rightarrow> Inr (m\<lparr> inProgress := l, complete := insertInList (complete m) tx \<rparr>))"

definition checkInProgress :: "execStatusManager \<Rightarrow> int \<Rightarrow> bool" where
  "checkInProgress m tx =
     (let x = SearchInts (inProgress m) tx in
      x < length (inProgress m) \<and> inProgress m ! x = tx)"

definition checkPending :: "execStatusManager \<Rightarrow> int \<Rightarrow> bool" where
  "checkPending m tx =
     (let x = SearchInts (pending m) tx in
      x < length (pending m) \<and> pending m ! x = tx)"

definition checkComplete :: "execStatusManager \<Rightarrow> int \<Rightarrow> bool" where
  "checkComplete m tx =
     (let x = SearchInts (complete m) tx in
      x < length (complete m) \<and> complete m ! x = tx)"

text \<open>
  \<open>addDependencies\<close> returns its boolean and the updated manager.  \<open>curblockers\<close> is a
  reference to the inner map \<open>m.blocker[dependent]\<close>, so \<open>delete(curblockers, blocker)\<close>
  and \<open>curblockers[blocker] = true\<close> update that entry; on a nil \<open>curblockers\<close> the
  delete does nothing and its length is 0.
\<close>

definition addDependencies ::
  "execStatusManager \<Rightarrow> int \<Rightarrow> int \<Rightarrow> bool \<times> execStatusManager" where
  "addDependencies m blocker_ix dependent =
     (if blocker_ix < 0 \<or> blocker_ix \<ge> dependent then (False, m)
      else if checkComplete m blocker_ix then
        (case blocker m dependent of
           None \<Rightarrow> (False, m)
         | Some cur \<Rightarrow>
             (cur - {blocker_ix} \<noteq> {},
              m\<lparr> blocker := (blocker m)(dependent \<mapsto> cur - {blocker_ix}) \<rparr>))
      else
        (let deps = (case dependency m blocker_ix of None \<Rightarrow> {} | Some d \<Rightarrow> d);
             cur = (case blocker m dependent of None \<Rightarrow> {} | Some c \<Rightarrow> c)
         in (True,
             m\<lparr> dependency := (dependency m)(blocker_ix \<mapsto> insert dependent deps),
                blocker := (blocker m)(dependent \<mapsto> insert blocker_ix cur) \<rparr>)))"

definition isBlocked :: "execStatusManager \<Rightarrow> int \<Rightarrow> bool" where
  "isBlocked m tx = (case blocker m tx of None \<Rightarrow> False | Some s \<Rightarrow> s \<noteq> {})"

text \<open>
  One iteration of the \<open>range deps\<close> loop of \<open>removeDependency\<close>, for the key \<open>k\<close>.
\<close>

definition removeDependency_step ::
  "int \<Rightarrow> int \<Rightarrow> execStatusManager \<Rightarrow> execStatusManager" where
  "removeDependency_step tx k m =
     (let m1 = (case blocker m k of
                  None \<Rightarrow> m
                | Some s \<Rightarrow> m\<lparr> blocker := (blocker m)(k \<mapsto> s - {tx}) \<rparr>)
      in if (case blocker m1 k of None \<Rightarrow> True | Some s \<Rightarrow> s = {}) then
           (if \<not> checkComplete m1 k \<and> \<not> checkPending m1 k \<and> \<not> checkInProgress m1 k
            then pushPending m1 k else m1)
         else m1)"

text \<open>
  Go visits the keys of a map in an unspecified order, each key once.  The order the
  runtime picks is the argument \<open>ks\<close>; \<open>range_order ks deps\<close> says that \<open>ks\<close> is such an
  order for the key set \<open>deps\<close>.
\<close>

definition range_order :: "int list \<Rightarrow> int set \<Rightarrow> bool" where
  "range_order ks deps = (distinct ks \<and> set ks = deps)"

definition removeDependency ::
  "int list \<Rightarrow> execStatusManager \<Rightarrow> int \<Rightarrow> execStatusManager" where
  "removeDependency ks m tx =
     (case dependency m tx of
        None \<Rightarrow> m
      | Some deps \<Rightarrow>
          if deps \<noteq> {} then
            (let m1 = fold (removeDependency_step tx) ks m
             in m1\<lparr> dependency := (dependency m1)(tx := None) \<rparr>)
          else m)"

definition clearInProgress :: "execStatusManager \<Rightarrow> int \<Rightarrow> error + execStatusManager" where
  "clearInProgress m tx =
     (case removeFromList (inProgress m) tx True of
        Inl e \<Rightarrow> Inl e
      | Inr l \<Rightarrow> Inr (m\<lparr> inProgress := l \<rparr>))"

function getRevalidationRange_loop ::
  "execStatusManager \<Rightarrow> int \<Rightarrow> int \<Rightarrow> int list \<Rightarrow> int list" where
  "getRevalidationRange_loop m mx x ret =
     (if x \<le> mx then
        getRevalidationRange_loop m mx (x + 1)
          (if \<not> checkInProgress m x then ret @ [x] else ret)
      else ret)"
  by pat_completeness auto
termination
  by (relation "measure (\<lambda>(m, mx, x, ret). nat (mx + 1 - x))") auto

declare getRevalidationRange_loop.simps [simp del]

definition getRevalidationRange :: "execStatusManager \<Rightarrow> int \<Rightarrow> int list" where
  "getRevalidationRange m txFrom =
     (let mx = maxAllComplete m in getRevalidationRange_loop m mx txFrom [])"

definition clearComplete :: "execStatusManager \<Rightarrow> int \<Rightarrow> error + execStatusManager" where
  "clearComplete m tx =
     (case removeFromList (complete m) tx False of
        Inl e \<Rightarrow> Inl e
      | Inr l \<Rightarrow> Inr (m\<lparr> complete := l \<rparr>))"

definition clearPending :: "execStatusManager \<Rightarrow> int \<Rightarrow> error + execStatusManager" where
  "clearPending m tx =
     (case removeFromList (pending m) tx False of
        Inl e \<Rightarrow> Inl e
      | Inr l \<Rightarrow> Inr (m\<lparr> pending := l \<rparr>))"

fun pushPendingSet :: "execStatusManager \<Rightarrow> int list \<Rightarrow> error + execStatusManager" where
  "pushPendingSet m [] = Inr m"
| "pushPendingSet m (v # vs) =
     (if checkComplete m v then
        (case clearComplete m v of
           Inl e \<Rightarrow> Inl e
         | Inr m1 \<Rightarrow> pushPendingSet (pushPending m1 v) vs)
      else pushPendingSet (pushPending m v) vs)"

section \<open>Tasks and the task heap (core/rawdb/accessors\_indexes.go)\<close>

text \<open>
  \<open>state.Version\<close> is \<open>{BlockNum, TxNum, TxIndex}\<close> with \<open>TxNum\<close> a \<open>uint64\<close>.  \<open>Task\<close> is an
  interface; the queues only ever call \<open>Version()\<close> on it, so a task is its version
  together with everything else it carries (\<open>body\<close>).  A \<open>*Result\<close> embeds its \<open>Task\<close>
  and answers \<open>Version()\<close> through it, so a result in the results heap is a task whose
  body holds the outcome.  A nil task is \<open>None\<close> of \<open>'p Task option\<close>; the elements of a
  heap are never nil, because \<open>heap.Push\<close> is only reached with non-nil values.
\<close>

record Version =
  BlockNum :: "64 word"
  TxNum :: "64 word"
  TxIndex :: int

record 'p Task =
  Version :: Version
  body :: 'p

type_synonym 'p TxTaskQueue = "'p Task list"

definition Less :: "'p TxTaskQueue \<Rightarrow> nat \<Rightarrow> nat \<Rightarrow> bool" where
  "Less h i j = (TxNum (Version (h ! i)) < TxNum (Version (h ! j)))"

definition Swap :: "'p TxTaskQueue \<Rightarrow> nat \<Rightarrow> nat \<Rightarrow> 'p TxTaskQueue" where
  "Swap h i j = h[i := h ! j, j := h ! i]"

subsection \<open>container/heap\<close>

text \<open>
  The standard library's \<open>heap.up\<close>:
  \<^verbatim>\<open>for { i := (j - 1) / 2; if i == j || !h.Less(j, i) { break }; h.Swap(i, j); j = i }\<close>.
  Go's division truncates towards zero, so for \<open>j = 0\<close> the parent \<open>(0 - 1) / 2\<close> is
  \<open>0\<close>, as is \<open>(0 - 1) div 2\<close> on \<open>nat\<close>.
\<close>

function up :: "'p TxTaskQueue \<Rightarrow> nat \<Rightarrow> 'p TxTaskQueue" where
  "up h j =
     (let i = (j - 1) div 2 in
      if i = j \<or> \<not> Less h j i then h else up (Swap h i j) i)"
  by pat_completeness auto
termination
  by (relation "measure (\<lambda>(h, j). j)") auto

declare up.simps [simp del]

text \<open>
  \<open>heap.down(h, i0, n)\<close>:
  \<^verbatim>\<open>i := i0; for { j1 := 2*i + 1; if j1 >= n || j1 < 0 { break }; j := j1;
    if j2 := j1 + 1; j2 < n && h.Less(j2, j1) { j = j2 }; if !h.Less(j, i) { break };
    h.Swap(i, j); i = j }\<close>.
  Its boolean result is not used by \<open>heap.Pop\<close>; the model returns the slice.
\<close>

function down :: "'p TxTaskQueue \<Rightarrow> nat \<Rightarrow> nat \<Rightarrow> 'p TxTaskQueue" where
  "down h i n =
     (let j1 = 2 * i + 1 in
      if j1 \<ge> n then h
      else
        (let j = (if j1 + 1 < n \<and> Less h (j1 + 1) j1 then j1 + 1 else j1) in
         if \<not> Less h j i then h else down (Swap h i j) j n))"
  by pat_completeness auto
termination
  by (relation "measure (\<lambda>(h, i, n). n - i)") (auto split: if_splits)

declare down.simps [simp del]

text \<open>\<open>heap.Push(h, x)\<close>: \<open>h.Push(x)\<close> appends, then \<open>up(h, h.Len()-1)\<close>.\<close>

definition heap_Push :: "'p TxTaskQueue \<Rightarrow> 'p Task \<Rightarrow> 'p TxTaskQueue" where
  "heap_Push h x = (let h1 = h @ [x] in up h1 (length h1 - 1))"

text \<open>
  \<open>heap.Pop(h)\<close>: \<open>n := h.Len() - 1; h.Swap(0, n); down(h, 0, n); return h.Pop()\<close>, where
  \<open>TxTaskQueue.Pop\<close> returns the last element and cuts it off.  On an empty heap
  \<open>h.Swap(0, -1)\<close> panics with an index out of range.
\<close>

definition heap_Pop :: "'p TxTaskQueue \<Rightarrow> error + ('p Task \<times> 'p TxTaskQueue)" where
  "heap_Pop h =
     (if length h = 0 then Inl IndexOutOfRange
      else
        (let n = length h - 1;
             h1 = Swap h 0 n;
             h2 = down h1 0 n
         in Inr (h2 ! (length h2 - 1), take (length h2 - 1) h2)))"

section \<open>Channels and select\<close>

text \<open>
  A buffered channel is its buffer, its capacity and whether it has been closed.  The
  model is sequential: no other goroutine is parked on the channel, so a send can
  proceed when the buffer has room (or the channel is closed, where it panics) and a
  receive can proceed when the buffer is non-empty or the channel is closed.

  A \<open>select\<close> picks one of the cases that can proceed, at random; with none ready it
  takes \<open>default\<close> if there is one and blocks otherwise.  An operation built on
  \<open>select\<close> therefore has a set of possible outcomes.  The cancellation context is the
  boolean \<open>done\<close>: whether \<open>ctx.Done()\<close> is closed during the call.
\<close>

record 'a chan =
  buf :: "'a list"
  cap :: nat
  chan_closed :: bool

definition make_chan :: "nat \<Rightarrow> 'a chan" where
  "make_chan n = \<lparr> buf = [], cap = n, chan_closed = False \<rparr>"

definition can_send :: "'a chan \<Rightarrow> bool" where
  "can_send c = (chan_closed c \<or> length (buf c) < cap c)"

definition can_recv :: "'a chan \<Rightarrow> bool" where
  "can_recv c = (chan_closed c \<or> buf c \<noteq> [])"

definition send :: "'a chan \<Rightarrow> 'a \<Rightarrow> error + 'a chan" where
  "send c x = (if chan_closed c then Inl SendOnClosedChannel else Inr (c\<lparr> buf := buf c @ [x] \<rparr>))"

definition close_chan :: "'a chan \<Rightarrow> error + 'a chan" where
  "close_chan c = (if chan_closed c then Inl CloseOfClosedChannel else Inr (c\<lparr> chan_closed := True \<rparr>))"

datatype 'a outcome = Returns 'a | Panics error | Blocks

section \<open>QueueWithRetry\<close>

text \<open>
  \<open>retiresLock\<close> is never contended in a sequential run and is left out.  The channel
  \<open>newTasks\<close> carries tasks and the nil markers that \<open>ReTry\<close> sends.
\<close>

record 'p QueueWithRetry =
  closed :: bool
  newTasks :: "'p Task option chan"
  retires :: "'p TxTaskQueue"
  capacity :: nat

definition NewQueueWithRetry :: "nat \<Rightarrow> 'p QueueWithRetry" where
  "NewQueueWithRetry n = \<lparr> closed = False, newTasks = make_chan n, retires = [], capacity = n \<rparr>"

text \<open>
  \<open>Add\<close>: \<open>select { case <-ctx.Done(): return; case q.newTasks <- t: }\<close>.
\<close>

definition Add :: "bool \<Rightarrow> 'p Task \<Rightarrow> 'p QueueWithRetry \<Rightarrow> 'p QueueWithRetry outcome set" where
  "Add done t q =
     (if \<not> done \<and> \<not> can_send (newTasks q) then {Blocks}
      else
        (if done then {Returns q} else {}) \<union>
        (if can_send (newTasks q) then
           {case send (newTasks q) (Some t) of
              Inl e \<Rightarrow> Panics e
            | Inr c \<Rightarrow> Returns (q\<lparr> newTasks := c \<rparr>)}
         else {}))"

text \<open>
  \<open>ReTry\<close>: push on the heap, then, unless \<open>q.closed\<close>, \<open>select { case q.newTasks <- nil: default: }\<close>.
  With one communication case and a \<open>default\<close> there is no choice to make.
\<close>

definition ReTry :: "'p Task \<Rightarrow> 'p QueueWithRetry \<Rightarrow> error + 'p QueueWithRetry" where
  "ReTry t q =
     (let q1 = q\<lparr> retires := heap_Push (retires q) t \<rparr> in
      if closed q1 then Inr q1
      else if can_send (newTasks q1) then
        (case send (newTasks q1) None of
           Inl e \<Rightarrow> Inl e
         | Inr c \<Rightarrow> Inr (q1\<lparr> newTasks := c \<rparr>))
      else Inr q1)"

text \<open>
  The loop \<open>for task == nil { select { case task, ok = <-q.newTasks: if !ok { return nil, false }; default: return nil, false } }\<close>
  of \<open>popNoWait\<close>: nil markers are skipped, the first task is returned, an empty
  buffer (closed or not) gives \<open>(nil, false)\<close>.
\<close>

fun popNoWait_loop :: "'p Task option list \<Rightarrow> ('p Task option \<times> bool) \<times> 'p Task option list" where
  "popNoWait_loop [] = ((None, False), [])"
| "popNoWait_loop (None # xs) = popNoWait_loop xs"
| "popNoWait_loop (Some t # xs) = ((Some t, True), xs)"

definition popNoWait ::
  "'p QueueWithRetry \<Rightarrow> error + (('p Task option \<times> bool) \<times> 'p QueueWithRetry)" where
  "popNoWait q =
     (let has = length (retires q) > 0 in
      if has then
        (case heap_Pop (retires q) of
           Inl e \<Rightarrow> Inl e
         | Inr (task, h) \<Rightarrow> Inr ((Some task, True), q\<lparr> retires := h \<rparr>))
      else
        (let (r, xs) = popNoWait_loop (buf (newTasks q)) in
         Inr (r, q\<lparr> newTasks := (newTasks q)\<lparr> buf := xs \<rparr> \<rparr>)))"

text \<open>
  \<open>popWait\<close>: each turn of the loop is a \<open>select\<close> between a receive from \<open>newTasks\<close> and
  \<open>ctx.Done()\<close>.  A receive from the closed, empty channel has \<open>ok = false\<close>; a received
  task is pushed before the heap is popped; a received nil marker with an empty heap
  goes round the loop again.
\<close>

function popWait ::
  "bool \<Rightarrow> 'p QueueWithRetry \<Rightarrow> (('p Task option \<times> bool) \<times> 'p QueueWithRetry) outcome set" where
  "popWait done q =
     (if \<not> done \<and> \<not> can_recv (newTasks q) then {Blocks}
      else
        (if done then {Returns ((None, False), q)} else {}) \<union>
        (if can_recv (newTasks q) then
           (case buf (newTasks q) of
              [] \<Rightarrow>
                (if length (retires q) > 0 then
                   {case heap_Pop (retires q) of
                      Inl e \<Rightarrow> Panics e
                    | Inr (task, h) \<Rightarrow> Returns ((Some task, True), q\<lparr> retires := h \<rparr>)}
                 else {Returns ((None, False), q)})
            | inTask # xs \<Rightarrow>
                (let q1 = q\<lparr> newTasks := (newTasks q)\<lparr> buf := xs \<rparr> \<rparr>;
                     h1 = (case inTask of None \<Rightarrow> retires q1 | Some t \<Rightarrow> heap_Push (retires q1) t)
                 in if length h1 > 0 then
                      {case heap_Pop h1 of
                         Inl e \<Rightarrow> Panics e
                       | Inr (task, h) \<Rightarrow> Returns ((Some task, True), q1\<lparr> retires := h \<rparr>)}
                    else popWait done (q1\<lparr> retires := h1 \<rparr>)))
         else {}))"
  by pat_completeness auto
termination
  by (relation "measure (\<lambda>(done, q). length (buf (newTasks q)))") auto

declare popWait.simps [simp del]

definition Next ::
  "bool \<Rightarrow> 'p QueueWithRetry \<Rightarrow> (('p Task option \<times> bool) \<times> 'p QueueWithRetry) outcome set" where
  "Next done q =
     (case popNoWait q of
        Inl e \<Rightarrow> {Panics e}
      | Inr ((task, ok), q1) \<Rightarrow>
          if ok then {Returns ((task, True), q1)} else popWait done q1)"

definition Close :: "'p QueueWithRetry \<Rightarrow> error + 'p QueueWithRetry" where
  "Close q =
     (if closed q then Inr q
      else
        (case close_chan (newTasks q) of
           Inl e \<Rightarrow> Inl e
         | Inr c \<Rightarrow> Inr (q\<lparr> closed := True, newTasks := c \<rparr>)))"

section \<open>ResultsQueue\<close>

text \<open>
  The ticker only matters to \<open>Drain\<close>'s timed wake-up; what \<open>Close\<close> does to it is the
  flag \<open>ticker_stopped\<close> (\<open>Ticker.Stop\<close> may be called any number of times).
\<close>

record 'p ResultsQueue =
  limit :: int
  rclosed :: bool
  resultCh :: "'p Task option chan"
  ticker_stopped :: bool
  results :: "'p TxTaskQueue"

definition NewResultsQueue :: "nat \<Rightarrow> int \<Rightarrow> 'p ResultsQueue" where
  "NewResultsQueue resultChannelLimit heapLimit =
     \<lparr> limit = heapLimit, rclosed = False, resultCh = make_chan resultChannelLimit,
       ticker_stopped = False, results = [] \<rparr>"

text \<open>
  \<open>drainNoBlock\<close>'s loop, entered after the optional first push:
  \<^verbatim>\<open>for { select { case <-ctx.Done(): return ctx.Err()
    case txTask, ok := <-q.resultCh: if !ok { return nil }; if txTask == nil { continue }
      heap.Push(q.results, txTask); if q.results.Len() > q.limit { return nil }
    default: return nil } }\<close>.
  The error result is not modelled; the outcome is the queue when the call returns.
\<close>

function drainNoBlock_loop :: "bool \<Rightarrow> 'p ResultsQueue \<Rightarrow> 'p ResultsQueue set" where
  "drainNoBlock_loop done q =
     (if \<not> done \<and> \<not> can_recv (resultCh q) then {q}
      else
        (if done then {q} else {}) \<union>
        (if can_recv (resultCh q) then
           (case buf (resultCh q) of
              [] \<Rightarrow> {q}
            | txTask # xs \<Rightarrow>
                (let q1 = q\<lparr> resultCh := (resultCh q)\<lparr> buf := xs \<rparr> \<rparr> in
                 case txTask of
                   None \<Rightarrow> drainNoBlock_loop done q1
                 | Some r \<Rightarrow>
                     (let q2 = q1\<lparr> results := heap_Push (results q1) r \<rparr> in
                      if int (length (results q2)) > limit q2 then {q2}
                      else drainNoBlock_loop done q2)))
         else {}))"
  by pat_completeness auto
termination
  by (relation "measure (\<lambda>(done, q). length (buf (resultCh q)))") auto

declare drainNoBlock_loop.simps [simp del]

definition drainNoBlock :: "bool \<Rightarrow> 'p Task option \<Rightarrow> 'p ResultsQueue \<Rightarrow> 'p ResultsQueue set" where
  "drainNoBlock done task q =
     drainNoBlock_loop done
       (case task of None \<Rightarrow> q | Some r \<Rightarrow> q\<lparr> results := heap_Push (results q) r \<rparr>)"

definition DrainNonBlocking :: "bool \<Rightarrow> 'p ResultsQueue \<Rightarrow> 'p ResultsQueue set" where
  "DrainNonBlocking done q = drainNoBlock done None q"

text \<open>\<open>ResultsQueue.Add\<close> has the same \<open>select\<close> as \<open>QueueWithRetry.Add\<close>.\<close>

definition rAdd :: "bool \<Rightarrow> 'p Task option \<Rightarrow> 'p ResultsQueue \<Rightarrow> 'p ResultsQueue outcome set" where
  "rAdd done task q =
     (if \<not> done \<and> \<not> can_send (resultCh q) then {Blocks}
      else
        (if done then {Returns q} else {}) \<union>
        (if can_send (resultCh q) then
           {case send (resultCh q) task of
              Inl e \<Rightarrow> Panics e
            | Inr c \<Rightarrow> Returns (q\<lparr> resultCh := c \<rparr>)}
         else {}))"

definition PopNext :: "'p ResultsQueue \<Rightarrow> error + ('p Task \<times> 'p ResultsQueue)" where
  "PopNext q =
     (case heap_Pop (results q) of
        Inl e \<Rightarrow> Inl e
      | Inr (r, h) \<Rightarrow> Inr (r, q\<lparr> results := h \<rparr>))"

definition rClose :: "'p ResultsQueue \<Rightarrow> error + 'p ResultsQueue" where
  "rClose q =
     (if rclosed q then Inr q
      else
        (case close_chan (resultCh q) of
           Inl e \<Rightarrow> Inl e
         | Inr c \<Rightarrow> Inr (q\<lparr> rclosed := True, resultCh := c, ticker_stopped := True \<rparr>)))"

text \<open>
  The commit loop's use of the iterator: \<open>n\<close> successive calls of \<open>PopNext\<close>, collecting
  what they return in call order.
\<close>

fun PopNext_times :: "nat \<Rightarrow> 'p ResultsQueue \<Rightarrow> error + ('p Task list \<times> 'p ResultsQueue)" where
  "PopNext_times 0 q = Inr ([], q)"
| "PopNext_times (Suc n) q =
     (case PopNext q of
        Inl e \<Rightarrow> Inl e
      | Inr (r, q1) \<Rightarrow>
          (case PopNext_times n q1 of
             Inl e \<Rightarrow> Inl e
           | Inr (rs, q2) \<Rightarrow> Inr (r # rs, q2)))"

section \<open>The heap invariant\<close>

text \<open>
  The predicates of the verification: \<open>TxNum_at h i\<close> is the key that \<open>Less\<close> compares,
  \<open>heap_upto n h\<close> says that among the first \<open>n\<close> elements no element is smaller than
  its parent \<open>(m - 1) / 2\<close>, and \<open>except_up\<close>, \<open>except_down\<close> are the invariants of the
  two sifting procedures: the heap order holds except at one position.
\<close>

definition TxNum_at :: "'p TxTaskQueue \<Rightarrow> nat \<Rightarrow> 64 word" where
  "TxNum_at h i = TxNum (Version (h ! i))"

definition heap_upto :: "nat \<Rightarrow> 'p TxTaskQueue \<Rightarrow> bool" where
  "heap_upto n h = (\<forall>m. 0 < m \<and> m < n \<longrightarrow> TxNum_at h ((m - 1) div 2) \<le> TxNum_at h m)"

definition is_heap :: "'p TxTaskQueue \<Rightarrow> bool" where
  "is_heap h = heap_upto (length h) h"

definition except_up :: "nat \<Rightarrow> nat \<Rightarrow> 'p TxTaskQueue \<Rightarrow> bool" where
  "except_up n j h =
     ((\<forall>m. 0 < m \<and> m < n \<and> m \<noteq> j \<longrightarrow> TxNum_at h ((m - 1) div 2) \<le> TxNum_at h m) \<and>
      (\<forall>m. 0 < m \<and> m < n \<and> (m - 1) div 2 = j \<and> 0 < j \<longrightarrow>
            TxNum_at h ((j - 1) div 2) \<le> TxNum_at h m))"

definition except_down :: "nat \<Rightarrow> nat \<Rightarrow> 'p TxTaskQueue \<Rightarrow> bool" where
  "except_down n i h =
     ((\<forall>m. 0 < m \<and> m < n \<and> (m - 1) div 2 \<noteq> i \<longrightarrow> TxNum_at h ((m - 1) div 2) \<le> TxNum_at h m) \<and>
      (\<forall>m. 0 < m \<and> m < n \<and> (m - 1) div 2 = i \<and> 0 < i \<longrightarrow>
            TxNum_at h ((i - 1) div 2) \<le> TxNum_at h m))"

section \<open>Sequences of queue calls\<close>

text \<open>
  \<open>DrainNonBlocking_times ds q\<close>: the states after one \<open>DrainNonBlocking\<close> call per
  element of \<open>ds\<close>, each with its own cancellation flag.  \<open>non_nil\<close> drops the nil
  entries of a channel buffer, \<open>push_all\<close> is \<open>heap.Push\<close> applied to a list of tasks in
  order.
\<close>

fun DrainNonBlocking_times :: "bool list \<Rightarrow> 'p ResultsQueue \<Rightarrow> 'p ResultsQueue set" where
  "DrainNonBlocking_times [] q = {q}"
| "DrainNonBlocking_times (d # ds) q = (\<Union>q1 \<in> DrainNonBlocking d q. DrainNonBlocking_times ds q1)"

fun non_nil :: "'a option list \<Rightarrow> 'a list" where
  "non_nil [] = []"
| "non_nil (None # xs) = non_nil xs"
| "non_nil (Some x # xs) = x # non_nil xs"

definition push_all :: "'p Task list \<Rightarrow> 'p TxTaskQueue \<Rightarrow> 'p TxTaskQueue" where
  "push_all rs h = fold (\<lambda>r h. heap_Push h r) rs h"

text \<open>
  \<open>reachable\<close>: the states of a \<open>QueueWithRetry\<close> that its constructor and its methods
  produce, whatever the order of the calls and whichever outcome each \<open>select\<close> takes.
  \<open>Next_times ds q\<close>: one \<open>Next\<close> call per element of \<open>ds\<close>, collecting the returned
  pairs in call order; a call that panics or blocks ends the sequence.
\<close>

inductive reachable :: "'p QueueWithRetry \<Rightarrow> bool" where
  reach_New: "reachable (NewQueueWithRetry n)"
| reach_Add: "reachable q \<Longrightarrow> Returns q' \<in> Add d t q \<Longrightarrow> reachable q'"
| reach_ReTry: "reachable q \<Longrightarrow> ReTry t q = Inr q' \<Longrightarrow> reachable q'"
| reach_Next: "reachable q \<Longrightarrow> Returns (r, q') \<in> Next d q \<Longrightarrow> reachable q'"
| reach_Close: "reachable q \<Longrightarrow> Close q = Inr q' \<Longrightarrow> reachable q'"

code_pred reachable .

fun Next_times ::
  "bool list \<Rightarrow> 'p QueueWithRetry \<Rightarrow> (('p Task option \<times> bool) list \<times> 'p QueueWithRetry) outcome set" where
  "Next_times [] q = {Returns ([], q)}"
| "Next_times (d # ds) q =
     (\<Union>x \<in> Next d q.
        case x of
          Returns (r, q1) \<Rightarrow>
            (\<lambda>y. case y of Returns (rs, q2) \<Rightarrow> Returns (r # rs, q2)
                  | Panics e \<Rightarrow> Panics e | Blocks \<Rightarrow> Blocks) ` Next_times ds q1
        | Panics e \<Rightarrow> {Panics e}
        | Blocks \<Rightarrow> {Blocks})"

section \<open>Named states\<close>

text \<open>
  \<open>blocked_before\<close> is the manager after \<open>newStatusManager(5)\<close> and
  \<open>addDependencies(1, 5)\<close>: task 5 is in none of the lists and is blocked by task 1.
\<close>

definition blocked_before :: execStatusManager where
  "blocked_before = snd (addDependencies (newStatusManager 5) 1 5)"

section \<open>Reachable manager states\<close>

text \<open>
  \<open>lists_ok\<close>: the three lists are sorted, duplicate-free and pairwise disjoint.
  \<open>sm_reachable\<close>: the states produced from \<open>newStatusManager\<close> by the manager's
  operations, where \<open>pushPending\<close> is applied to an index that is neither in progress
  nor completed and \<open>pushPendingSet\<close> to indices that are not in progress, as the
  callers \<open>removeDependency\<close> and the commit loop (with the output of
  \<open>getRevalidationRange\<close>) do.  A call that panics produces no state.
\<close>

definition lists_ok :: "execStatusManager \<Rightarrow> bool" where
  "lists_ok m =
     (sorted (pending m) \<and> distinct (pending m) \<and>
      sorted (inProgress m) \<and> distinct (inProgress m) \<and>
      sorted (complete m) \<and> distinct (complete m) \<and>
      set (pending m) \<inter> set (inProgress m) = {} \<and>
      set (pending m) \<inter> set (complete m) = {} \<and>
      set (inProgress m) \<inter> set (complete m) = {})"

inductive sm_reachable :: "execStatusManager \<Rightarrow> bool" where
  sm_New: "sm_reachable (newStatusManager n)"
| sm_takeNextPending: "sm_reachable m \<Longrightarrow> sm_reachable (snd (takeNextPending m))"
| sm_markComplete: "sm_reachable m \<Longrightarrow> markComplete m tx = Inr m' \<Longrightarrow> sm_reachable m'"
| sm_pushPending:
    "sm_reachable m \<Longrightarrow> tx \<notin> set (inProgress m) \<Longrightarrow> tx \<notin> set (complete m) \<Longrightarrow>
     sm_reachable (pushPending m tx)"
| sm_pushPendingSet:
    "sm_reachable m \<Longrightarrow> set vs \<inter> set (inProgress m) = {} \<Longrightarrow> pushPendingSet m vs = Inr m' \<Longrightarrow>
     sm_reachable m'"
| sm_clearInProgress: "sm_reachable m \<Longrightarrow> clearInProgress m tx = Inr m' \<Longrightarrow> sm_reachable m'"
| sm_clearComplete: "sm_reachable m \<Longrightarrow> clearComplete m tx = Inr m' \<Longrightarrow> sm_reachable m'"
| sm_clearPending: "sm_reachable m \<Longrightarrow> clearPending m tx = Inr m' \<Longrightarrow> sm_reachable m'"
| sm_addDependencies: "sm_reachable m \<Longrightarrow> sm_reachable (snd (addDependencies m b d))"
| sm_removeDependency:
    "sm_reachable m \<Longrightarrow> (\<forall>deps. dependency m tx = Some deps \<longrightarrow> range_order ks deps) \<Longrightarrow>
     sm_reachable (removeDependency ks m tx)"

code_pred sm_reachable .

section \<open>Binary search on sorted lists\<close>

lemma Search_loop_bounds:
  "i \<le> j \<Longrightarrow> i \<le> Search_loop a x i j \<and> Search_loop a x i j \<le> j"
proof (induction a x i j rule: Search_loop.induct)
  case (1 a x i j)
  show ?case
  proof (cases "i < j")
    case False
    with "1.prems" show ?thesis by (simp add: Search_loop.simps)
  next
    case True
    define h where "h = (i + j) div 2"
    have hb: "i \<le> h" "h < j" using True by (auto simp: h_def)
    show ?thesis
    proof (cases "a ! h \<ge> x")
      case ge: True
      have "Search_loop a x i j = Search_loop a x i h"
        using True ge by (subst Search_loop.simps) (simp add: h_def Let_def)
      moreover have "i \<le> Search_loop a x i h \<and> Search_loop a x i h \<le> h"
        using "1.IH"(2)[OF True h_def[symmetric, THEN sym]] ge hb by simp
      ultimately show ?thesis using hb by simp
    next
      case lt: False
      have "Search_loop a x i j = Search_loop a x (h + 1) j"
        using True lt by (subst Search_loop.simps) (simp add: h_def Let_def)
      moreover have "h + 1 \<le> Search_loop a x (h + 1) j \<and> Search_loop a x (h + 1) j \<le> j"
        using "1.IH"(1)[OF True h_def[symmetric, THEN sym]] lt hb by simp
      ultimately show ?thesis using hb by simp
    qed
  qed
qed

lemma Search_loop_sorted:
  "sorted a \<Longrightarrow> i \<le> j \<Longrightarrow> j \<le> length a \<Longrightarrow> (\<forall>k<i. a ! k < x) \<Longrightarrow>
   (\<forall>k. j \<le> k \<and> k < length a \<longrightarrow> x \<le> a ! k) \<Longrightarrow>
   (\<forall>k < Search_loop a x i j. a ! k < x) \<and>
   (\<forall>k. Search_loop a x i j \<le> k \<and> k < length a \<longrightarrow> x \<le> a ! k)"
proof (induction a x i j rule: Search_loop.induct)
  case (1 a x i j)
  show ?case
  proof (cases "i < j")
    case False
    with "1.prems" show ?thesis by (simp add: Search_loop.simps)
  next
    case True
    define h where "h = (i + j) div 2"
    have hb: "i \<le> h" "h < j" using True by (auto simp: h_def)
    have hh: "h = (i + j) div 2" by (rule h_def)
    show ?thesis
    proof (cases "a ! h \<ge> x")
      case ge: True
      have eq: "Search_loop a x i j = Search_loop a x i h"
        using True ge by (subst Search_loop.simps) (simp add: h_def Let_def)
      have up: "\<forall>k. h \<le> k \<and> k < length a \<longrightarrow> x \<le> a ! k"
      proof (intro allI impI)
        fix k assume "h \<le> k \<and> k < length a"
        then have "a ! h \<le> a ! k" using \<open>sorted a\<close> by (simp add: sorted_nth_mono)
        with ge show "x \<le> a ! k" by simp
      qed
      have "h \<le> length a" using hb "1.prems" by simp
      from "1.IH"(2)[OF True hh _ \<open>sorted a\<close> hb(1) this "1.prems"(4) up] ge
      show ?thesis unfolding eq by simp
    next
      case lt: False
      have eq: "Search_loop a x i j = Search_loop a x (h + 1) j"
        using True lt by (subst Search_loop.simps) (simp add: h_def Let_def)
      have lo: "\<forall>k<h + 1. a ! k < x"
      proof (intro allI impI)
        fix k assume "k < h + 1"
        then have "a ! k \<le> a ! h" using \<open>sorted a\<close> hb "1.prems" by (simp add: sorted_nth_mono)
        with lt show "a ! k < x" by simp
      qed
      have "h + 1 \<le> j" using hb by simp
      from "1.IH"(1)[OF True hh _ \<open>sorted a\<close> this "1.prems"(3) lo "1.prems"(5)] lt
      show ?thesis unfolding eq by simp
    qed
  qed
qed

lemma SearchInts_le_length: "SearchInts a x \<le> length a"
  using Search_loop_bounds[of 0 "length a" a x] by (simp add: SearchInts_def)

lemma SearchInts_sorted:
  assumes "sorted a"
  shows "\<forall>k < SearchInts a x. a ! k < x"
    and "\<forall>k. SearchInts a x \<le> k \<and> k < length a \<longrightarrow> x \<le> a ! k"
  using Search_loop_sorted[OF assms, of 0 "length a" x] by (simp_all add: SearchInts_def)

lemma SearchInts_found_iff:
  assumes "sorted a"
  shows "(SearchInts a x < length a \<and> a ! SearchInts a x = x) \<longleftrightarrow> x \<in> set a"
proof
  assume "SearchInts a x < length a \<and> a ! SearchInts a x = x"
  then show "x \<in> set a" by (metis nth_mem)
next
  assume "x \<in> set a"
  then obtain k where k: "k < length a" "a ! k = x" by (auto simp: in_set_conv_nth)
  let ?r = "SearchInts a x"
  have "\<not> k < ?r" using SearchInts_sorted(1)[OF assms, of x] k by auto
  then have rk: "?r \<le> k" by simp
  then have rl: "?r < length a" using k by simp
  have "x \<le> a ! ?r" using SearchInts_sorted(2)[OF assms, of x] rl by simp
  moreover have "a ! ?r \<le> a ! k" using assms rk k(1) by (rule sorted_nth_mono)
  ultimately show "?r < length a \<and> a ! ?r = x" using rl k by simp
qed

lemma SearchInts_take:
  assumes "sorted a" shows "\<forall>y \<in> set (take (SearchInts a x) a). y < x"
  using SearchInts_sorted(1)[OF assms, of x] SearchInts_le_length[of a x]
  by (auto simp: in_set_conv_nth)

lemma SearchInts_drop:
  assumes "sorted a" shows "\<forall>y \<in> set (drop (SearchInts a x) a). x \<le> y"
  using SearchInts_sorted(2)[OF assms, of x] SearchInts_le_length[of a x]
  by (auto simp: in_set_conv_nth)

section \<open>Sorted insertion and removal\<close>

lemma insert_slice_eq:
  "x < length l \<Longrightarrow> (take (Suc x) l @ drop x l)[x := v] = take x l @ v # drop x l"
  by (simp add: take_Suc_conv_app_nth list_update_append)

lemma insertInList_cases:
  assumes "sorted l"
  shows "insertInList l v =
     (if v \<in> set l then l else take (SearchInts l v) l @ v # drop (SearchInts l v) l)"
proof (cases "length l = 0 \<or> v > l ! (length l - 1)")
  case True
  have all: "\<forall>y \<in> set l. y < v"
  proof
    fix y assume "y \<in> set l"
    then obtain k where k: "k < length l" "l ! k = y" by (auto simp: in_set_conv_nth)
    then have "l ! k \<le> l ! (length l - 1)" using assms by (intro sorted_nth_mono) auto
    with True k show "y < v" by auto
  qed
  then have nin: "v \<notin> set l" by auto
  have "\<not> SearchInts l v < length l"
  proof
    assume lt: "SearchInts l v < length l"
    then have "v \<le> l ! SearchInts l v" using SearchInts_sorted(2)[OF assms, of v] by simp
    moreover have "l ! SearchInts l v < v" using all lt by simp
    ultimately show False by simp
  qed
  then have "SearchInts l v = length l" using SearchInts_le_length[of l v] by simp
  with True nin show ?thesis by (simp add: insertInList_def)
next
  case False
  then have ne: "l \<noteq> []" and le: "v \<le> l ! (length l - 1)" by auto
  let ?x = "SearchInts l v"
  have xl: "?x < length l"
  proof (rule ccontr)
    assume "\<not> ?x < length l"
    then have "length l - 1 < ?x" using ne SearchInts_le_length[of l v] by (cases l) auto
    then have "l ! (length l - 1) < v" using SearchInts_sorted(1)[OF assms, of v] by blast
    with le show False by simp
  qed
  show ?thesis
    using False xl SearchInts_found_iff[OF assms, of v]
    by (simp add: insertInList_def Let_def insert_slice_eq)
qed

lemma set_insertInList: "sorted l \<Longrightarrow> set (insertInList l v) = insert v (set l)"
proof -
  assume s: "sorted l"
  have "set (take (SearchInts l v) l @ v # drop (SearchInts l v) l) = insert v (set l)"
    using set_append[of "take (SearchInts l v) l" "drop (SearchInts l v) l"] by auto
  then show ?thesis using insertInList_cases[OF s, of v] by auto
qed

lemma sorted_insertInList: "sorted l \<Longrightarrow> sorted (insertInList l v)"
proof -
  assume s: "sorted l"
  let ?x = "SearchInts l v"
  have "sorted (take ?x l @ v # drop ?x l)"
    using s SearchInts_take[OF s, of v] SearchInts_drop[OF s, of v]
    by (fastforce simp: sorted_append intro: sorted_wrt_take sorted_wrt_drop)
  then show ?thesis using insertInList_cases[OF s, of v] s by auto
qed

lemma distinct_insertInList: "sorted l \<Longrightarrow> distinct l \<Longrightarrow> distinct (insertInList l v)"
proof -
  assume s: "sorted l" and d: "distinct l"
  let ?x = "SearchInts l v"
  have "v \<notin> set l \<Longrightarrow> distinct (take ?x l @ v # drop ?x l)"
    using d distinct_take[OF d, of ?x] distinct_drop[OF d, of ?x]
      set_take_disj_set_drop_if_distinct[OF d, of ?x ?x]
    by (auto dest: in_set_takeD in_set_dropD)
  then show ?thesis using insertInList_cases[OF s, of v] d by auto
qed

lemma removeFromList_found:
  assumes "sorted l" "v \<in> set l"
  shows "removeFromList l v e = Inr (take (SearchInts l v) l @ drop (Suc (SearchInts l v)) l)"
proof -
  let ?x = "SearchInts l v"
  have f: "?x < length l" "l ! ?x = v" using SearchInts_found_iff[OF assms(1), of v] assms(2) by auto
  have c0: "?x = 0 \<Longrightarrow> drop (Suc 0) l = take ?x l @ drop (Suc ?x) l" by simp
  have c1: "?x = length l - 1 \<Longrightarrow> take (length l - 1) l = take ?x l @ drop (Suc ?x) l"
    using f by simp
  show ?thesis using f c0 c1 by (auto simp: removeFromList_def Let_def)
qed

lemma removeFromList_Inr:
  assumes "sorted l" "removeFromList l v e = Inr l'"
  shows "l' = (if v \<in> set l then take (SearchInts l v) l @ drop (Suc (SearchInts l v)) l else l)"
proof (cases "v \<in> set l")
  case True
  then show ?thesis using removeFromList_found[OF assms(1) True, of e] assms(2) by simp
next
  case False
  then have "\<not> (SearchInts l v < length l \<and> l ! SearchInts l v = v)"
    using SearchInts_found_iff[OF assms(1), of v] by simp
  then show ?thesis using assms(2) False
    by (auto simp: removeFromList_def Let_def split: if_splits)
qed

lemma removed_slice_props:
  assumes "sorted l" "distinct l" "x < length l"
  shows "set (take x l @ drop (Suc x) l) = set l - {l ! x}"
    and "sorted (take x l @ drop (Suc x) l)"
    and "distinct (take x l @ drop (Suc x) l)"
proof -
  have l: "l = take x l @ l ! x # drop (Suc x) l" using assms(3) by (rule id_take_nth_drop)
  have d: "distinct (take x l @ l ! x # drop (Suc x) l)" using assms(2) l by simp
  have s: "sorted (take x l @ l ! x # drop (Suc x) l)" using assms(1) l by simp
  from d show "distinct (take x l @ drop (Suc x) l)" by auto
  from s show "sorted (take x l @ drop (Suc x) l)" by (auto simp: sorted_append)
  have "set l = set (take x l) \<union> {l ! x} \<union> set (drop (Suc x) l)"
    by (subst l) auto
  moreover have "l ! x \<notin> set (take x l) \<union> set (drop (Suc x) l)" using d by auto
  ultimately show "set (take x l @ drop (Suc x) l) = set l - {l ! x}" by auto
qed

lemma removeFromList_props:
  assumes "sorted l" "distinct l" "removeFromList l v e = Inr l'"
  shows "set l' = set l - {v} \<and> sorted l' \<and> distinct l'"
proof (cases "v \<in> set l")
  case True
  have f: "SearchInts l v < length l" "l ! SearchInts l v = v"
    using SearchInts_found_iff[OF assms(1), of v] True by auto
  have "l' = take (SearchInts l v) l @ drop (Suc (SearchInts l v)) l"
    using removeFromList_Inr[OF assms(1,3)] True by simp
  then show ?thesis using removed_slice_props[OF assms(1,2) f(1)] f(2) by simp
next
  case False
  then have "l' = l" using removeFromList_Inr[OF assms(1,3)] by simp
  then show ?thesis using assms False by simp
qed

section \<open>Removing an absent element\<close>

text \<open>
  C10.  The claim: for a sorted list \<open>l\<close> and a value \<open>v\<close> that is not in it,
  \<open>removeFromList(l, v, false)\<close>, and with it \<open>clearComplete\<close> and \<open>clearPending\<close>,
  returns the list unchanged without panicking, also when \<open>l\<close> is empty or \<open>v\<close> is
  greater than every element.  The source evaluated at such inputs: the search
  returns \<open>len(l)\<close>, the guard \<open>x == -1\<close> does not catch it, and \<open>l[x]\<close> panics with
  an index out of range.
\<close>

theorem removeFromList_absent_panics:
  "removeFromList [] 5 False = Inl IndexOutOfRange
   \<and> removeFromList [1, 2] 3 False = Inl IndexOutOfRange
   \<and> clearComplete (newStatusManager 2) 0 = Inl IndexOutOfRange
   \<and> clearPending (newStatusManager 2) 2 = Inl IndexOutOfRange"
  by (simp add: removeFromList_def clearComplete_def clearPending_def newStatusManager_def
      SearchInts_def Search_loop.simps upt_rec)

section \<open>The contiguous completed prefix\<close>

lemma strict_gap:
  assumes "sorted c" "distinct c"
  shows "j \<le> i \<Longrightarrow> i < length c \<Longrightarrow> int i - int j \<le> c ! i - c ! j"
proof (induction i)
  case 0
  then show ?case by simp
next
  case (Suc i)
  show ?case
  proof (cases "j = Suc i")
    case True
    then show ?thesis by simp
  next
    case False
    then have ji: "j \<le> i" using Suc.prems by simp
    have "sorted_wrt (<) c" using assms by (simp add: strict_sorted_iff)
    then have "c ! i < c ! Suc i" using Suc.prems by (simp add: sorted_wrt_nth_less)
    moreover have "int i - int j \<le> c ! i - c ! j" using Suc.IH ji Suc.prems by simp
    ultimately show ?thesis by simp
  qed
qed

lemma hasNoGap_take:
  assumes "i < length c"
  shows "hasNoGap (take (i + 1) c) \<longleftrightarrow> c ! 0 + int i = c ! i"
proof -
  have "length (take (i + 1) c) = i + 1" using assms by simp
  then show ?thesis unfolding hasNoGap_def by auto
qed

lemma maxAllComplete_loop_last:
  "0 < n \<Longrightarrow> n \<le> length c \<Longrightarrow> c ! 0 = 0 \<Longrightarrow>
   \<exists>i<n. maxAllComplete_loop c n = c ! i \<and> c ! i = int i \<and> (\<forall>k. i < k \<and> k < n \<longrightarrow> c ! k \<noteq> int k)"
proof (induction n)
  case 0
  then show ?case by simp
next
  case (Suc n)
  have nl: "n < length c" using Suc.prems by simp
  show ?case
  proof (cases "c ! n = int n")
    case True
    then have "maxAllComplete_loop c (Suc n) = c ! n"
      using hasNoGap_take[OF nl] Suc.prems by simp
    with True show ?thesis by auto
  next
    case False
    then have n0: "0 < n" using Suc.prems by (cases n) auto
    have eq: "maxAllComplete_loop c (Suc n) = maxAllComplete_loop c n"
      using hasNoGap_take[OF nl] Suc.prems False by simp
    from Suc.IH[OF n0] Suc.prems obtain i where
      i: "i < n" "maxAllComplete_loop c n = c ! i" "c ! i = int i"
         "\<forall>k. i < k \<and> k < n \<longrightarrow> c ! k \<noteq> int k" by auto
    have "\<forall>k. i < k \<and> k < Suc n \<longrightarrow> c ! k \<noteq> int k"
      using i(4) False by (auto simp: less_Suc_eq)
    with i eq show ?thesis by (intro exI[of _ i]) auto
  qed
qed

lemma prefix_complete:
  assumes "sorted c" "distinct c" "c ! 0 = 0" "i < length c" "c ! i = int i"
    "Suc i < length c \<longrightarrow> c ! Suc i \<noteq> int (Suc i)"
  shows "(\<forall>k. 0 \<le> k \<and> k \<le> int i \<longrightarrow> k \<in> set c) \<and> int i + 1 \<notin> set c"
proof
  have idx: "\<And>j. j \<le> i \<Longrightarrow> c ! j = int j"
  proof -
    fix j assume ji: "j \<le> i"
    have "int i - int j \<le> c ! i - c ! j" using strict_gap[OF assms(1,2) ji assms(4)] .
    moreover have "int j - int 0 \<le> c ! j - c ! 0"
      using strict_gap[OF assms(1,2), of 0 j] ji assms(4) by simp
    ultimately show "c ! j = int j" using assms(3,5) by simp
  qed
  show "\<forall>k. 0 \<le> k \<and> k \<le> int i \<longrightarrow> k \<in> set c"
  proof (intro allI impI)
    fix k :: int assume k: "0 \<le> k \<and> k \<le> int i"
    then have "nat k \<le> i" by (simp add: nat_le_iff)
    then have "c ! nat k = k" using idx[of "nat k"] k by simp
    moreover have "nat k < length c" using k assms(4) by linarith
    ultimately show "k \<in> set c" by (metis nth_mem)
  qed
  show "int i + 1 \<notin> set c"
  proof
    assume "int i + 1 \<in> set c"
    then obtain k where k: "k < length c" "c ! k = int i + 1" by (auto simp: in_set_conv_nth)
    show False
    proof (cases "k \<le> i")
      case True
      then show False using idx[of k] k by simp
    next
      case False
      then have ik: "Suc i \<le> k" by simp
      then have sl: "Suc i < length c" using k by simp
      have "int k - int (Suc i) \<le> c ! k - c ! Suc i" using strict_gap[OF assms(1,2) ik k(1)] .
      moreover have "int (Suc i) - int i \<le> c ! Suc i - c ! i"
        using strict_gap[OF assms(1,2), of i "Suc i"] sl by simp
      moreover have "int (Suc i) \<le> int k" using ik by simp
      ultimately show False using k(2) assms(5,6) sl by simp
    qed
  qed
qed

lemma maxAllComplete_examples:
  "maxAllComplete \<lparr>pending = [], inProgress = [], complete = [0, 1, 2, 5, 6],
      dependency = Map.empty, blocker = Map.empty\<rparr> = 2"
  "maxAllComplete \<lparr>pending = [], inProgress = [], complete = [0, 1, 2, 3],
      dependency = Map.empty, blocker = Map.empty\<rparr> = 3"
  "maxAllComplete \<lparr>pending = [], inProgress = [], complete = [1, 2],
      dependency = Map.empty, blocker = Map.empty\<rparr> = - 1"
  by (simp_all add: maxAllComplete_def hasNoGap_def numeral_eq_Suc)

text \<open>
  C3.  For a completed list that is sorted, duplicate-free and holds no negative index,
  \<open>maxAllComplete\<close> returns \<open>-1\<close> when index 0 is not completed, and otherwise the
  largest \<open>k\<close> with every index of \<open>0 .. k\<close> completed: every index from 0 to the
  result is completed and the next index is not.
\<close>

theorem maxAllComplete_prefix:
  assumes "sorted (complete m)" "distinct (complete m)" "\<forall>x \<in> set (complete m). 0 \<le> x"
  shows "(0 \<notin> set (complete m) \<longrightarrow> maxAllComplete m = - 1)
       \<and> - 1 \<le> maxAllComplete m
       \<and> (\<forall>k. 0 \<le> k \<and> k \<le> maxAllComplete m \<longrightarrow> k \<in> set (complete m))
       \<and> maxAllComplete m + 1 \<notin> set (complete m)"
proof -
  let ?c = "complete m"
  show ?thesis
  proof (cases "length ?c = 0 \<or> ?c ! 0 \<noteq> 0")
    case True
    then have r: "maxAllComplete m = - 1" by (simp add: maxAllComplete_def)
    have "0 \<notin> set ?c"
    proof
      assume "0 \<in> set ?c"
      then obtain k where k: "k < length ?c" "?c ! k = 0" by (auto simp: in_set_conv_nth)
      then have "?c ! 0 \<le> ?c ! k" using assms(1) by (intro sorted_nth_mono) auto
      moreover have "0 \<le> ?c ! 0" using assms(3) k by (cases "complete m") auto
      ultimately show False using True k by auto
    qed
    with r show ?thesis by auto
  next
    case False
    then have ne: "0 < length ?c" and c0: "?c ! 0 = 0" by auto
    then have in0: "0 \<in> set ?c" by (metis nth_mem)
    have "\<exists>i < length ?c. maxAllComplete m = ?c ! i \<and> ?c ! i = int i
            \<and> (Suc i < length ?c \<longrightarrow> ?c ! Suc i \<noteq> int (Suc i))"
    proof (cases "?c ! (length ?c - 1) = int (length ?c) - 1")
      case True
      then have "maxAllComplete m = ?c ! (length ?c - 1)" using False by (simp add: maxAllComplete_def)
      moreover obtain n where n: "length ?c = Suc n" using ne by (cases "length ?c") auto
      ultimately show ?thesis using True by (intro exI[of _ n]) auto
    next
      case nl: False
      then have r: "maxAllComplete m = maxAllComplete_loop ?c (length ?c - 1)"
        using False by (simp add: maxAllComplete_def Let_def)
      have "length ?c \<noteq> 1" using nl c0 by auto
      then have n1: "0 < length ?c - 1" using ne by (cases "complete m") auto
      from maxAllComplete_loop_last[OF n1 _ c0] obtain i where
        i: "i < length ?c - 1" "maxAllComplete_loop ?c (length ?c - 1) = ?c ! i" "?c ! i = int i"
           "\<forall>k. i < k \<and> k < length ?c - 1 \<longrightarrow> ?c ! k \<noteq> int k" by auto
      have "?c ! Suc i \<noteq> int (Suc i)"
      proof (cases "Suc i < length ?c - 1")
        case True
        then show ?thesis using i(4)[rule_format, of "Suc i"] by simp
      next
        case False
        then have "Suc i = length ?c - 1" using i(1) by simp
        then show ?thesis using nl by (simp add: of_nat_diff)
      qed
      with i r show ?thesis by (intro exI[of _ i]) auto
    qed
    then obtain i where i: "i < length ?c" "maxAllComplete m = ?c ! i" "?c ! i = int i"
      "Suc i < length ?c \<longrightarrow> ?c ! Suc i \<noteq> int (Suc i)" by auto
    from prefix_complete[OF assms(1,2) c0 i(1) i(3) i(4)] i in0
    show ?thesis by simp
  qed
qed

theorem maxAllComplete_prefix_witness:
  "sorted [0, 1, 2, 5, 6 :: int] \<and> distinct [0, 1, 2, 5, 6 :: int]
   \<and> maxAllComplete \<lparr>pending = [], inProgress = [], complete = [0, 1, 2, 5, 6],
         dependency = Map.empty, blocker = Map.empty\<rparr> = 2
   \<and> (0 :: int) \<in> set [0, 1, 2, 5, 6] \<and> (1 :: int) \<in> set [0, 1, 2, 5, 6]
   \<and> (2 :: int) \<in> set [0, 1, 2, 5, 6] \<and> (3 :: int) \<notin> set [0, 1, 2, 5, 6]"
proof -
  let ?m = "\<lparr>pending = [], inProgress = [], complete = [0, 1, 2, 5, 6 :: int],
         dependency = Map.empty, blocker = Map.empty\<rparr>"
  have h1: "sorted (complete ?m)" by simp
  have h2: "distinct (complete ?m)" by simp
  have h3: "\<forall>x \<in> set (complete ?m). 0 \<le> x" by simp
  have r: "maxAllComplete ?m = 2" by (rule maxAllComplete_examples(1))
  from maxAllComplete_prefix[OF h1 h2 h3] show ?thesis unfolding r by simp
qed

text \<open>
  The claim as stated, for every sorted duplicate-free completed list, fails when the
  list holds a negative index: with completed = [-1, 0] index 0 is completed, yet the
  test \<open>m.complete[0] != 0\<close> sees \<open>-1\<close> first and the result is \<open>-1\<close>.
\<close>

theorem maxAllComplete_negative_counterexample:
  "sorted [- 1, 0 :: int] \<and> distinct [- 1, 0 :: int] \<and> (0 :: int) \<in> set [- 1, 0]
   \<and> maxAllComplete \<lparr>pending = [], inProgress = [], complete = [- 1, 0],
         dependency = Map.empty, blocker = Map.empty\<rparr> = - 1"
  by (simp add: maxAllComplete_def)

section \<open>The revalidation range\<close>

lemma getRevalidationRange_loop_eq:
  "getRevalidationRange_loop m mx x ret = ret @ filter (\<lambda>y. \<not> checkInProgress m y) [x..mx]"
proof (induction m mx x ret rule: getRevalidationRange_loop.induct)
  case (1 m mx x ret)
  show ?case
  proof (cases "x \<le> mx")
    case True
    then have "[x..mx] = x # [x + 1..mx]" by (simp add: upto_rec1)
    then show ?thesis
      using True "1.IH"[OF True] by (subst getRevalidationRange_loop.simps) simp
  next
    case False
    then show ?thesis by (subst getRevalidationRange_loop.simps) simp
  qed
qed

lemma checkInProgress_iff:
  "sorted (inProgress m) \<Longrightarrow> checkInProgress m tx \<longleftrightarrow> tx \<in> set (inProgress m)"
  using SearchInts_found_iff[of "inProgress m" tx] by (simp add: checkInProgress_def Let_def)

lemma checkPending_iff:
  "sorted (pending m) \<Longrightarrow> checkPending m tx \<longleftrightarrow> tx \<in> set (pending m)"
  using SearchInts_found_iff[of "pending m" tx] by (simp add: checkPending_def Let_def)

lemma checkComplete_iff:
  "sorted (complete m) \<Longrightarrow> checkComplete m tx \<longleftrightarrow> tx \<in> set (complete m)"
  using SearchInts_found_iff[of "complete m" tx] by (simp add: checkComplete_def Let_def)

text \<open>
  C6.  With a sorted in-progress list, \<open>getRevalidationRange(txFrom)\<close> returns exactly
  the indices \<open>x\<close> with \<open>txFrom \<le> x \<le> maxAllComplete()\<close> that are not in the in-progress
  set, in ascending order.
\<close>

theorem getRevalidationRange_exact:
  assumes "sorted (inProgress m)"
  shows "getRevalidationRange m txFrom
           = filter (\<lambda>x. x \<notin> set (inProgress m)) [txFrom..maxAllComplete m]
       \<and> set (getRevalidationRange m txFrom)
           = {x. txFrom \<le> x \<and> x \<le> maxAllComplete m \<and> x \<notin> set (inProgress m)}
       \<and> sorted_wrt (<) (getRevalidationRange m txFrom)"
proof -
  have eq: "getRevalidationRange m txFrom
           = filter (\<lambda>x. x \<notin> set (inProgress m)) [txFrom..maxAllComplete m]"
    using checkInProgress_iff[OF assms]
    by (simp add: getRevalidationRange_def getRevalidationRange_loop_eq)
  have "sorted_wrt (<) [txFrom..maxAllComplete m]"
    by (simp add: strict_sorted_iff)
  then have "sorted_wrt (<) (filter (\<lambda>x. x \<notin> set (inProgress m)) [txFrom..maxAllComplete m])"
    by (rule sorted_wrt_filter)
  then show ?thesis using eq by auto
qed

theorem getRevalidationRange_exact_witness:
  "sorted [1, 7 :: int]
   \<and> getRevalidationRange \<lparr>pending = [], inProgress = [1, 7], complete = [0, 2, 3, 5],
         dependency = Map.empty, blocker = Map.empty\<rparr> (- 2)
       = filter (\<lambda>x. x \<notin> set [1, 7]) [- 2..0]"
proof -
  let ?m = "\<lparr>pending = [], inProgress = [1, 7 :: int], complete = [0, 2, 3, 5],
         dependency = Map.empty, blocker = Map.empty\<rparr>"
  have h: "sorted (inProgress ?m)" by simp
  have r: "maxAllComplete ?m = 0" by (simp add: maxAllComplete_def hasNoGap_def numeral_eq_Suc)
  from getRevalidationRange_exact[OF h, of "- 2"] show ?thesis unfolding r by simp
qed

section \<open>Sifting restores the heap order\<close>

lemma Less_TxNum_at: "Less h i j \<longleftrightarrow> TxNum_at h i < TxNum_at h j"
  by (simp add: Less_def TxNum_at_def)

lemma TxNum_at_Swap:
  "i < length h \<Longrightarrow> j < length h \<Longrightarrow>
   TxNum_at (Swap h i j) m = (if m = j then TxNum_at h i else if m = i then TxNum_at h j else TxNum_at h m)"
  by (auto simp: TxNum_at_def Swap_def nth_list_update)

lemma length_Swap [simp]: "length (Swap h i j) = length h"
  by (simp add: Swap_def)

lemma mset_Swap: "i < length h \<Longrightarrow> j < length h \<Longrightarrow> mset (Swap h i j) = mset h"
  unfolding Swap_def by (simp add: mset_swap)

lemma parent_less: "0 < m \<Longrightarrow> (m - 1) div 2 < (m::nat)"
  by auto

lemma up_step:
  assumes ex: "except_up n j h" and jn: "j < n" and nl: "n \<le> length h"
    and ij: "(j - 1) div 2 \<noteq> j" and lt: "Less h j ((j - 1) div 2)"
  shows "except_up n ((j - 1) div 2) (Swap h ((j - 1) div 2) j)"
proof -
  define i where "i = (j - 1) div 2"
  have j0: "0 < j" using ij by (cases j) auto
  have ilt: "i < j" unfolding i_def using j0 by auto
  have il: "i < length h" "j < length h" using ilt jn nl by auto
  have kij: "TxNum_at h j < TxNum_at h i" using lt by (simp add: Less_TxNum_at i_def)
  note sw = TxNum_at_Swap[OF il]
  have A: "\<And>m. 0 < m \<Longrightarrow> m < n \<Longrightarrow> m \<noteq> j \<Longrightarrow> TxNum_at h ((m - 1) div 2) \<le> TxNum_at h m"
    using ex by (simp add: except_up_def)
  have B: "\<And>m. 0 < m \<Longrightarrow> m < n \<Longrightarrow> (m - 1) div 2 = j \<Longrightarrow> TxNum_at h i \<le> TxNum_at h m"
    using ex j0 by (simp add: except_up_def i_def)
  have C1: "\<And>m. 0 < m \<Longrightarrow> m < n \<Longrightarrow> m \<noteq> i \<Longrightarrow>
      TxNum_at (Swap h i j) ((m - 1) div 2) \<le> TxNum_at (Swap h i j) m"
  proof -
    fix m assume m: "0 < m" "m < n" "m \<noteq> i"
    show "TxNum_at (Swap h i j) ((m - 1) div 2) \<le> TxNum_at (Swap h i j) m"
    proof (cases "m = j")
      case True
      have pm: "(m - 1) div 2 = i" by (simp add: True i_def)
      show ?thesis unfolding pm sw using kij ilt True by simp
    next
      case False
      have pm: "(m - 1) div 2 < m" using m(1) by auto
      show ?thesis
      proof (cases "(m - 1) div 2 = i")
        case True
        then show ?thesis using A[OF m(1,2) False] kij m(3) False ilt by (simp add: sw)
      next
        case ni: False
        show ?thesis
        proof (cases "(m - 1) div 2 = j")
          case True
          then show ?thesis using B[OF m(1,2) True] m(3) False by (simp add: sw)
        next
          case nj: False
          then show ?thesis using A[OF m(1,2) False] ni m(3) False by (simp add: sw)
        qed
      qed
    qed
  qed
  have C2: "\<And>m. 0 < m \<Longrightarrow> m < n \<Longrightarrow> (m - 1) div 2 = i \<Longrightarrow> 0 < i \<Longrightarrow>
      TxNum_at (Swap h i j) ((i - 1) div 2) \<le> TxNum_at (Swap h i j) m"
  proof -
    fix m assume m: "0 < m" "m < n" "(m - 1) div 2 = i" "0 < i"
    have pi: "(i - 1) div 2 < i" using m(4) by auto
    have in': "i < n" using ilt jn by simp
    have ki: "TxNum_at h ((i - 1) div 2) \<le> TxNum_at h i" using A[OF m(4) in'] ilt by simp
    have mi: "m \<noteq> i" using m(1,3) parent_less[OF m(1)] by simp
    show "TxNum_at (Swap h i j) ((i - 1) div 2) \<le> TxNum_at (Swap h i j) m"
    proof (cases "m = j")
      case True
      then show ?thesis using ki pi ilt by (simp add: sw)
    next
      case False
      then have "TxNum_at h i \<le> TxNum_at h m" using A[OF m(1,2) False] m(3) by simp
      then show ?thesis using ki pi ilt False mi by (simp add: sw)
    qed
  qed
  show ?thesis unfolding except_up_def i_def[symmetric] using C1 C2 by blast
qed

lemma up_heap:
  "except_up n j h \<Longrightarrow> j < n \<Longrightarrow> n \<le> length h \<Longrightarrow> heap_upto n (up h j)"
proof (induction h j rule: up.induct)
  case (1 h j)
  define i where "i = (j - 1) div 2"
  show ?case
  proof (cases "i = j \<or> \<not> Less h j i")
    case True
    then have eq: "up h j = h" by (subst up.simps) (simp add: i_def Let_def)
    have "heap_upto n h"
      unfolding heap_upto_def
    proof (intro allI impI)
      fix m assume m: "0 < m \<and> m < n"
      show "TxNum_at h ((m - 1) div 2) \<le> TxNum_at h m"
      proof (cases "m = j")
        case False
        then show ?thesis using "1.prems"(1) m by (simp add: except_up_def)
      next
        case mj: True
        then have "i \<noteq> j" using m by (auto simp: i_def)
        then have "\<not> TxNum_at h j < TxNum_at h i" using True by (simp add: Less_TxNum_at)
        then show ?thesis using mj by (simp add: i_def)
      qed
    qed
    with eq show ?thesis by simp
  next
    case False
    then have ij: "(j - 1) div 2 \<noteq> j" and lt: "Less h j ((j - 1) div 2)" by (auto simp: i_def)
    have eq: "up h j = up (Swap h i j) i"
      using False by (subst up.simps) (simp add: i_def Let_def)
    have ex: "except_up n i (Swap h i j)"
      unfolding i_def by (rule up_step[OF "1.prems"(1,2,3) ij lt])
    have "i < n" using ij "1.prems"(2) by (auto simp: i_def)
    from "1.IH"[OF i_def _ ex this] False "1.prems"(3) eq show ?thesis by simp
  qed
qed

lemma up_length [simp]: "length (up h j) = length h"
proof (induction h j rule: up.induct)
  case (1 h j)
  show ?case
    using "1.IH" by (subst up.simps) (auto simp: Let_def)
qed

lemma up_mset: "j < length h \<Longrightarrow> mset (up h j) = mset h"
proof (induction h j rule: up.induct)
  case (1 h j)
  define i where "i = (j - 1) div 2"
  have il: "i \<le> j" by (simp add: i_def)
  show ?case
  proof (cases "i = j \<or> \<not> Less h j i")
    case True
    then show ?thesis by (subst up.simps) (simp add: i_def Let_def)
  next
    case False
    have eq: "up h j = up (Swap h i j) i"
      using False by (subst up.simps) (simp add: i_def Let_def)
    have "mset (up (Swap h i j) i) = mset (Swap h i j)"
      using "1.IH"[OF i_def] False il "1.prems" by simp
    then show ?thesis using eq il "1.prems" by (simp add: mset_Swap)
  qed
qed


lemma parent_eq: "0 < m \<Longrightarrow> (m - 1) div 2 = i \<longleftrightarrow> m = 2 * i + 1 \<or> m = 2 * i + 2" for m i :: nat
  by arith

lemma down_child:
  assumes "j = (if 2 * i + 1 + 1 < n \<and> Less h (2 * i + 1 + 1) (2 * i + 1) then 2 * i + 1 + 1 else 2 * i + 1)"
    and "2 * i + 1 < n"
  shows "i < j" "j < n" "(j - 1) div 2 = i" "0 < j"
    and "\<And>m. 0 < m \<Longrightarrow> m < n \<Longrightarrow> (m - 1) div 2 = i \<Longrightarrow> TxNum_at h j \<le> TxNum_at h m"
proof -
  show "i < j" "j < n" "(j - 1) div 2 = i" "0 < j" using assms by (auto split: if_splits)
  fix m :: nat assume m: "0 < m" "m < n" "(m - 1) div 2 = i"
  then have "m = 2 * i + 1 \<or> m = 2 * i + 2" using parent_eq[of m i] by simp
  then show "TxNum_at h j \<le> TxNum_at h m"
    using assms m(2) by (auto simp: Less_TxNum_at split: if_splits)
qed

lemma down_step:
  assumes ex: "except_down n i h" and nl: "n \<le> length h"
    and jd: "j = (if 2 * i + 1 + 1 < n \<and> Less h (2 * i + 1 + 1) (2 * i + 1) then 2 * i + 1 + 1 else 2 * i + 1)"
    and j1: "2 * i + 1 < n" and lt: "Less h j i"
  shows "except_down n j (Swap h i j)"
proof -
  note ch = down_child[OF jd j1]
  have il: "i < length h" "j < length h" using ch(1,2) nl by auto
  note sw = TxNum_at_Swap[OF il]
  have kji: "TxNum_at h j < TxNum_at h i" using lt by (simp add: Less_TxNum_at)
  have A: "\<And>m. 0 < m \<Longrightarrow> m < n \<Longrightarrow> (m - 1) div 2 \<noteq> i \<Longrightarrow> TxNum_at h ((m - 1) div 2) \<le> TxNum_at h m"
    using ex by (simp add: except_down_def)
  have B: "\<And>m. 0 < m \<Longrightarrow> m < n \<Longrightarrow> (m - 1) div 2 = i \<Longrightarrow> 0 < i \<Longrightarrow>
      TxNum_at h ((i - 1) div 2) \<le> TxNum_at h m"
    using ex by (simp add: except_down_def)
  have C1: "\<And>m. 0 < m \<Longrightarrow> m < n \<Longrightarrow> (m - 1) div 2 \<noteq> j \<Longrightarrow>
      TxNum_at (Swap h i j) ((m - 1) div 2) \<le> TxNum_at (Swap h i j) m"
  proof -
    fix m assume m: "0 < m" "m < n" "(m - 1) div 2 \<noteq> j"
    have pm: "(m - 1) div 2 < m" using m(1) by auto
    show "TxNum_at (Swap h i j) ((m - 1) div 2) \<le> TxNum_at (Swap h i j) m"
    proof (cases "m = j")
      case True
      show ?thesis unfolding True ch(3) sw using kji ch(1) by simp
    next
      case nj: False
      show ?thesis
      proof (cases "m = i")
        case True
        have i0: "0 < i" using True m(1) by simp
        have pi: "(i - 1) div 2 < i" using i0 by auto
        have "TxNum_at h ((i - 1) div 2) \<le> TxNum_at h j" using B[OF ch(4) ch(2) ch(3) i0] .
        then show ?thesis unfolding True sw using pi ch(1) by simp
      next
        case ni: False
        show ?thesis
        proof (cases "(m - 1) div 2 = i")
          case True
          have "TxNum_at h j \<le> TxNum_at h m" using ch(5)[OF m(1,2) True] .
          then show ?thesis unfolding True sw using nj ni ch(1) by simp
        next
          case False
          then show ?thesis using A[OF m(1,2) False] m(3) nj ni by (simp add: sw)
        qed
      qed
    qed
  qed
  have C2: "\<And>m. 0 < m \<Longrightarrow> m < n \<Longrightarrow> (m - 1) div 2 = j \<Longrightarrow> 0 < j \<Longrightarrow>
      TxNum_at (Swap h i j) ((j - 1) div 2) \<le> TxNum_at (Swap h i j) m"
  proof -
    fix m assume m: "0 < m" "m < n" "(m - 1) div 2 = j" "0 < j"
    have mj: "j < m" using parent_less[OF m(1)] m(3) by simp
    have "(m - 1) div 2 \<noteq> i" using m(3) ch(1) by simp
    then have "TxNum_at h j \<le> TxNum_at h m" using A[OF m(1,2)] m(3) by simp
    then show "TxNum_at (Swap h i j) ((j - 1) div 2) \<le> TxNum_at (Swap h i j) m"
      unfolding ch(3) sw using mj ch(1) by simp
  qed
  show ?thesis unfolding except_down_def using C1 C2 by blast
qed

lemma down_heap:
  "except_down n i h \<Longrightarrow> n \<le> length h \<Longrightarrow> heap_upto n (down h i n)"
proof (induction h i n rule: down.induct)
  case (1 h i n)
  define j1 where "j1 = 2 * i + 1"
  define j where "j = (if j1 + 1 < n \<and> Less h (j1 + 1) j1 then j1 + 1 else j1)"
  have jd: "j = (if 2 * i + 1 + 1 < n \<and> Less h (2 * i + 1 + 1) (2 * i + 1) then 2 * i + 1 + 1 else 2 * i + 1)"
    by (simp add: j_def j1_def)
  have eq0: "down h i n = (if j1 \<ge> n then h else if \<not> Less h j i then h else down (Swap h i j) j n)"
    unfolding j_def j1_def by (simp only: down.simps[of h i n] Let_def)
  have A: "\<And>m. 0 < m \<Longrightarrow> m < n \<Longrightarrow> (m - 1) div 2 \<noteq> i \<Longrightarrow> TxNum_at h ((m - 1) div 2) \<le> TxNum_at h m"
    using "1.prems"(1) by (simp add: except_down_def)
  show ?case
  proof (cases "j1 \<ge> n")
    case True
    then have eq: "down h i n = h" using eq0 by simp
    have "heap_upto n h" unfolding heap_upto_def
    proof (intro allI impI)
      fix m assume m: "0 < m \<and> m < n"
      then have "(m - 1) div 2 \<noteq> i" using True parent_eq[of m i] by (auto simp: j1_def)
      then show "TxNum_at h ((m - 1) div 2) \<le> TxNum_at h m" using A m by simp
    qed
    with eq show ?thesis by simp
  next
    case False
    then have j1n: "2 * i + 1 < n" by (simp add: j1_def)
    note ch = down_child[OF jd j1n]
    show ?thesis
    proof (cases "Less h j i")
      case nl: False
      then have eq: "down h i n = h"
        using False eq0 by simp
      have kij: "TxNum_at h i \<le> TxNum_at h j" using nl by (simp add: Less_TxNum_at)
      have "heap_upto n h" unfolding heap_upto_def
      proof (intro allI impI)
        fix m assume m: "0 < m \<and> m < n"
        show "TxNum_at h ((m - 1) div 2) \<le> TxNum_at h m"
        proof (cases "(m - 1) div 2 = i")
          case True
          have "TxNum_at h j \<le> TxNum_at h m" using ch(5)[of m] m True by simp
          then show ?thesis using kij True by simp
        next
          case False
          then show ?thesis using A m by simp
        qed
      qed
      with eq show ?thesis by simp
    next
      case lt: True
      have eq: "down h i n = down (Swap h i j) j n"
        using False lt eq0 by simp
      have ex: "except_down n j (Swap h i j)"
        by (rule down_step[OF "1.prems"(1,2) jd j1n lt])
      have "heap_upto n (down (Swap h i j) j n)"
        using "1.IH"[OF j1_def False j_def _ ex] lt "1.prems"(2) by simp
      with eq show ?thesis by simp
    qed
  qed
qed

lemma down_length [simp]: "length (down h i n) = length h"
proof (induction h i n rule: down.induct)
  case (1 h i n)
  show ?case
    using "1.IH" by (subst down.simps) (auto simp: Let_def)
qed

lemma down_mset_drop:
  "n \<le> length h \<Longrightarrow> mset (down h i n) = mset h \<and> drop n (down h i n) = drop n h"
proof (induction h i n rule: down.induct)
  case (1 h i n)
  define j1 where "j1 = 2 * i + 1"
  define j where "j = (if j1 + 1 < n \<and> Less h (j1 + 1) j1 then j1 + 1 else j1)"
  have jd: "j = (if 2 * i + 1 + 1 < n \<and> Less h (2 * i + 1 + 1) (2 * i + 1) then 2 * i + 1 + 1 else 2 * i + 1)"
    by (simp add: j_def j1_def)
  have eq0: "down h i n = (if j1 \<ge> n then h else if \<not> Less h j i then h else down (Swap h i j) j n)"
    unfolding j_def j1_def by (simp only: down.simps[of h i n] Let_def)
  show ?case
  proof (cases "j1 \<ge> n \<or> \<not> Less h j i")
    case True
    then have "down h i n = h" using eq0 by auto
    then show ?thesis by simp
  next
    case False
    then have j1n: "2 * i + 1 < n" and lt: "Less h j i" by (auto simp: j1_def)
    note ch = down_child[OF jd j1n]
    have eq: "down h i n = down (Swap h i j) j n"
      using False eq0 by simp
    have il: "i < length h" "j < length h" using ch(1,2) "1.prems" by auto
    have ih: "mset (down (Swap h i j) j n) = mset (Swap h i j)
        \<and> drop n (down (Swap h i j) j n) = drop n (Swap h i j)"
      using "1.IH"[OF j1_def _ j_def] False "1.prems" by simp
    have "drop n (Swap h i j) = drop n h"
      using ch(1,2) by (simp add: Swap_def drop_update_cancel)
    then show ?thesis using ih eq mset_Swap[OF il] by simp
  qed
qed


lemma heap_upto_take: "n \<le> length h \<Longrightarrow> heap_upto n (take n h) \<longleftrightarrow> heap_upto n h"
proof -
  assume nl: "n \<le> length h"
  have "\<And>m. m < n \<Longrightarrow> TxNum_at (take n h) m = TxNum_at h m" by (simp add: TxNum_at_def)
  moreover have "\<And>m. 0 < m \<Longrightarrow> m < n \<Longrightarrow> (m - 1) div 2 < n" by auto
  ultimately show ?thesis unfolding heap_upto_def by auto
qed

lemma heap_Push_length [simp]: "length (heap_Push h x) = Suc (length h)"
  by (simp add: heap_Push_def Let_def)

lemma heap_Push_mset: "mset (heap_Push h x) = add_mset x (mset h)"
  by (simp add: heap_Push_def Let_def up_mset)

lemma heap_Push_heap:
  assumes "is_heap h" shows "is_heap (heap_Push h x)"
proof -
  let ?h1 = "h @ [x]"
  have A: "\<And>m. 0 < m \<Longrightarrow> m < length h \<Longrightarrow> TxNum_at ?h1 ((m - 1) div 2) \<le> TxNum_at ?h1 m"
  proof -
    fix m assume m: "0 < m" "m < length h"
    then have "(m - 1) div 2 < length h" by auto
    then show "TxNum_at ?h1 ((m - 1) div 2) \<le> TxNum_at ?h1 m"
      using assms m by (simp add: is_heap_def heap_upto_def TxNum_at_def nth_append)
  qed
  have "except_up (length ?h1) (length h) ?h1"
    unfolding except_up_def
  proof (intro conjI allI impI)
    fix m assume "0 < m \<and> m < length ?h1 \<and> m \<noteq> length h"
    then show "TxNum_at ?h1 ((m - 1) div 2) \<le> TxNum_at ?h1 m" using A[of m] by simp
  next
    fix m assume m: "0 < m \<and> m < length ?h1 \<and> (m - 1) div 2 = length h \<and> 0 < length h"
    then have "(m - 1) div 2 < m" by auto
    with m have False by simp
    then show "TxNum_at ?h1 ((length h - 1) div 2) \<le> TxNum_at ?h1 m" ..
  qed
  then have "heap_upto (length ?h1) (up ?h1 (length h))"
    by (rule up_heap) simp_all
  then show ?thesis by (simp add: is_heap_def heap_Push_def Let_def)
qed

lemma heap_root_min:
  assumes "is_heap h" shows "m < length h \<Longrightarrow> TxNum_at h 0 \<le> TxNum_at h m"
proof (induction m rule: less_induct)
  case (less m)
  show ?case
  proof (cases "m = 0")
    case True
    then show ?thesis by simp
  next
    case False
    then have p: "(m - 1) div 2 < m" by auto
    have "TxNum_at h 0 \<le> TxNum_at h ((m - 1) div 2)" using less.IH[OF p] p less.prems by simp
    moreover have "TxNum_at h ((m - 1) div 2) \<le> TxNum_at h m"
      using assms False less.prems by (simp add: is_heap_def heap_upto_def)
    ultimately show ?thesis by simp
  qed
qed

lemma heap_root_min_set:
  assumes "is_heap h" "y \<in> set h" shows "TxNum (Version (h ! 0)) \<le> TxNum (Version y)"
proof -
  from assms(2) obtain m where "m < length h" "h ! m = y" by (auto simp: in_set_conv_nth)
  then show ?thesis using heap_root_min[OF assms(1), of m] by (simp add: TxNum_at_def)
qed

lemma heap_Pop_props:
  assumes hp: "is_heap h" and ne: "h \<noteq> []"
  shows "\<exists>h'. heap_Pop h = Inr (h ! 0, h') \<and> is_heap h' \<and> mset h = add_mset (h ! 0) (mset h')
            \<and> length h = Suc (length h')"
proof -
  define n where "n = length h - 1"
  define h1 where "h1 = Swap h 0 n"
  define h2 where "h2 = down h1 0 n"
  have ln: "length h = Suc n" using ne by (cases h) (auto simp: n_def)
  have nl: "n < length h" using ln by simp
  have l1: "length h1 = Suc n" "length h2 = Suc n" using ln by (simp_all add: h1_def h2_def)
  have "length h2 - 1 = n" using l1 by simp
  then have pop: "heap_Pop h = Inr (h2 ! n, take n h2)"
    unfolding h2_def h1_def n_def using ne by (simp add: heap_Pop_def Let_def)
  have sw: "\<And>m. TxNum_at h1 m = (if m = n then TxNum_at h 0 else if m = 0 then TxNum_at h n else TxNum_at h m)"
    unfolding h1_def using TxNum_at_Swap[of 0 h n] nl ne by simp
  have "except_down n 0 h1"
    unfolding except_down_def
  proof (intro conjI allI impI)
    fix m assume m: "0 < m \<and> m < n \<and> (m - 1) div 2 \<noteq> 0"
    then have "(m - 1) div 2 < m" by auto
    then have "(m - 1) div 2 \<noteq> n" using m by simp
    moreover have "TxNum_at h ((m - 1) div 2) \<le> TxNum_at h m"
      using hp m nl by (simp add: is_heap_def heap_upto_def)
    ultimately show "TxNum_at h1 ((m - 1) div 2) \<le> TxNum_at h1 m" using m by (simp add: sw)
  qed simp
  then have "heap_upto n h2" unfolding h2_def by (rule down_heap) (simp add: l1)
  then have hp': "is_heap (take n h2)"
    using heap_upto_take[of n h2] l1 by (simp add: is_heap_def)
  have md: "mset h2 = mset h1" "drop n h2 = drop n h1"
    using down_mset_drop[of n h1 0] l1 by (simp_all add: h2_def)
  have "h2 ! n = h1 ! n" using md(2) l1
    by (metis Cons_nth_drop_Suc lessI list.inject)
  also have "h1 ! n = h ! 0" using nl by (simp add: h1_def Swap_def nth_list_update)
  finally have last: "h2 ! n = h ! 0" .
  have "take (Suc n) h2 = take n h2 @ [h2 ! n]" by (rule take_Suc_conv_app_nth) (simp add: l1)
  moreover have "take (Suc n) h2 = h2" using l1(2) by simp
  ultimately have "h2 = take n h2 @ [h2 ! n]" by metis
  then have "mset h2 = mset (take n h2 @ [h2 ! n])" by simp
  then have "mset h2 = add_mset (h2 ! n) (mset (take n h2))" by simp
  moreover have "mset h1 = mset h" unfolding h1_def using nl ne by (simp add: mset_Swap)
  ultimately have ms: "mset h = add_mset (h ! 0) (mset (take n h2))" using md(1) last by simp
  show ?thesis using pop last hp' ms ln l1 by (intro exI[of _ "take n h2"]) simp
qed

section \<open>The results queue pops in TxNum order\<close>

lemma push_all_simps [simp]:
  "push_all [] h = h" "push_all (r # rs) h = push_all rs (heap_Push h r)"
  "push_all (rs @ rs') h = push_all rs' (push_all rs h)"
  by (simp_all add: push_all_def)

lemma push_all_heap: "is_heap h \<Longrightarrow> is_heap (push_all rs h)"
  by (induction rs arbitrary: h) (simp_all add: heap_Push_heap)

lemma push_all_mset: "mset (push_all rs h) = mset h + mset rs"
  by (induction rs arbitrary: h) (simp_all add: heap_Push_mset)

lemma is_heap_Nil [simp]: "is_heap []"
  by (simp add: is_heap_def heap_upto_def)

lemma drainNoBlock_loop_result:
  "q' \<in> drainNoBlock_loop d q \<Longrightarrow>
   \<exists>k \<le> length (buf (resultCh q)).
     q' = q\<lparr> resultCh := (resultCh q)\<lparr> buf := drop k (buf (resultCh q)) \<rparr>,
             results := push_all (non_nil (take k (buf (resultCh q)))) (results q) \<rparr>"
proof (induction d q arbitrary: q' rule: drainNoBlock_loop.induct)
  case (1 d q)
  have stay: "q = q\<lparr> resultCh := (resultCh q)\<lparr> buf := drop 0 (buf (resultCh q)) \<rparr>,
             results := push_all (non_nil (take 0 (buf (resultCh q)))) (results q) \<rparr>"
    by simp
  show ?case
  proof (cases "q' = q")
    case True
    with stay show ?thesis by blast
  next
    case False
    from "1.prems" False obtain x xs where b: "buf (resultCh q) = x # xs"
      and cr: "can_recv (resultCh q)" and nb: "\<not> (\<not> d \<and> \<not> can_recv (resultCh q))"
      by (subst (asm) drainNoBlock_loop.simps) (auto split: if_splits list.splits)
    define q1 where "q1 = q\<lparr> resultCh := (resultCh q)\<lparr> buf := xs \<rparr> \<rparr>"
    show ?thesis
    proof (cases x)
      case None
      have "q' \<in> drainNoBlock_loop d q1"
        using "1.prems" False b cr None
        by (subst (asm) drainNoBlock_loop.simps) (auto simp: q1_def Let_def split: if_splits)
      from "1.IH"(1)[OF nb cr b q1_def None this] obtain k where
        k: "k \<le> length (buf (resultCh q1))"
        "q' = q1\<lparr> resultCh := (resultCh q1)\<lparr> buf := drop k (buf (resultCh q1)) \<rparr>,
             results := push_all (non_nil (take k (buf (resultCh q1)))) (results q1) \<rparr>"
        by blast
      show ?thesis
        using k b None by (intro exI[of _ "Suc k"]) (simp add: q1_def)
    next
      case (Some r)
      define q2 where "q2 = q1\<lparr> results := heap_Push (results q1) r \<rparr>"
      have q2eq: "q2 = q\<lparr> resultCh := (resultCh q)\<lparr> buf := drop 1 (buf (resultCh q)) \<rparr>,
             results := push_all (non_nil (take 1 (buf (resultCh q)))) (results q) \<rparr>"
        using b Some by (simp add: q2_def q1_def)
      show ?thesis
      proof (cases "q' = q2")
        case True
        with q2eq b show ?thesis by (intro exI[of _ 1]) simp
      next
        case nq2: False
        have mem: "\<not> int (length (results q2)) > limit q2 \<and> q' \<in> drainNoBlock_loop d q2"
          using "1.prems" False nq2 b cr Some
          by (subst (asm) drainNoBlock_loop.simps)
             (auto simp: q1_def q2_def Let_def split: if_splits)
        from "1.IH"(2)[OF nb cr b q1_def Some q2_def _ ] mem obtain k where
          k: "k \<le> length (buf (resultCh q2))"
          "q' = q2\<lparr> resultCh := (resultCh q2)\<lparr> buf := drop k (buf (resultCh q2)) \<rparr>,
               results := push_all (non_nil (take k (buf (resultCh q2)))) (results q2) \<rparr>"
          by blast
        show ?thesis
          using k b Some
          by (intro exI[of _ "Suc k"]) (simp add: q2_def q1_def)
      qed
    qed
  qed
qed


lemma non_nil_append [simp]: "non_nil (xs @ ys) = non_nil xs @ non_nil ys"
  by (induction xs rule: non_nil.induct) simp_all

lemma non_nil_map_Some [simp]: "non_nil (map Some rs) = rs"
  by (induction rs) simp_all

lemma DrainNonBlocking_times_result:
  "q' \<in> DrainNonBlocking_times ds q \<Longrightarrow>
   \<exists>k \<le> length (buf (resultCh q)).
     q' = q\<lparr> resultCh := (resultCh q)\<lparr> buf := drop k (buf (resultCh q)) \<rparr>,
             results := push_all (non_nil (take k (buf (resultCh q)))) (results q) \<rparr>"
proof (induction ds arbitrary: q)
  case Nil
  then have "q' = q" by simp
  then show ?case by (intro exI[of _ 0]) simp
next
  case (Cons d ds)
  then obtain q1 where q1: "q1 \<in> drainNoBlock_loop d q" "q' \<in> DrainNonBlocking_times ds q1"
    by (auto simp: DrainNonBlocking_def drainNoBlock_def)
  let ?b = "buf (resultCh q)"
  from drainNoBlock_loop_result[OF q1(1)] obtain k1 where
    k1: "k1 \<le> length ?b"
      "q1 = q\<lparr> resultCh := (resultCh q)\<lparr> buf := drop k1 ?b \<rparr>,
             results := push_all (non_nil (take k1 ?b)) (results q) \<rparr>"
    by blast
  from Cons.IH[OF q1(2)] obtain k2 where
    k2: "k2 \<le> length (buf (resultCh q1))"
      "q' = q1\<lparr> resultCh := (resultCh q1)\<lparr> buf := drop k2 (buf (resultCh q1)) \<rparr>,
             results := push_all (non_nil (take k2 (buf (resultCh q1)))) (results q1) \<rparr>"
    by blast
  have b1: "buf (resultCh q1) = drop k1 ?b" "results q1 = push_all (non_nil (take k1 ?b)) (results q)"
    by (subst k1(2), simp)+
  have r1: "\<And>X. (resultCh q1)\<lparr> buf := X \<rparr> = (resultCh q)\<lparr> buf := X \<rparr>"
    by (subst k1(2)) simp
  have r2: "\<And>A B. q1\<lparr> resultCh := A, results := B \<rparr> = q\<lparr> resultCh := A, results := B \<rparr>"
    by (subst k1(2)) simp
  have "take (k1 + k2) ?b = take k1 ?b @ take k2 (drop k1 ?b)" by (rule take_add)
  then have "q' = q\<lparr> resultCh := (resultCh q)\<lparr> buf := drop (k1 + k2) ?b \<rparr>,
             results := push_all (non_nil (take (k1 + k2) ?b)) (results q) \<rparr>"
    unfolding k2(2) b1 r1 r2 by (simp add: add.commute)
  moreover have "k1 + k2 \<le> length ?b" using k1(1) k2(1) b1(1) by simp
  ultimately show ?case by blast
qed

lemma PopNext_times_sorted:
  "is_heap (results q) \<Longrightarrow> n = length (results q) \<Longrightarrow>
   \<exists>out. PopNext_times n q = Inr (out, q\<lparr> results := [] \<rparr>)
       \<and> sorted (map (TxNum \<circ> Version) out) \<and> mset out = mset (results q)"
proof (induction n arbitrary: q)
  case 0
  then have "q\<lparr> results := [] \<rparr> = q" by simp
  then show ?case using 0 by simp
next
  case (Suc n)
  let ?h = "results q"
  have ne: "?h \<noteq> []" using Suc.prems(2) by auto
  from heap_Pop_props[OF Suc.prems(1) ne] obtain h' where
    h': "heap_Pop ?h = Inr (?h ! 0, h')" "is_heap h'" "mset ?h = add_mset (?h ! 0) (mset h')"
      "length ?h = Suc (length h')" by blast
  define q1 where "q1 = q\<lparr> results := h' \<rparr>"
  have pn: "PopNext q = Inr (?h ! 0, q1)" using h'(1) by (simp add: PopNext_def q1_def)
  have "is_heap (results q1)" "n = length (results q1)"
    using h'(2,4) Suc.prems(2) by (simp_all add: q1_def)
  from Suc.IH[OF this] obtain out where
    out: "PopNext_times n q1 = Inr (out, q1\<lparr> results := [] \<rparr>)"
      "sorted (map (TxNum \<circ> Version) out)" "mset out = mset (results q1)" by blast
  have q1e: "q1\<lparr> results := [] \<rparr> = q\<lparr> results := [] \<rparr>" by (simp add: q1_def)
  have "\<forall>y \<in> set out. TxNum (Version (?h ! 0)) \<le> TxNum (Version y)"
  proof
    fix y assume "y \<in> set out"
    then have "y \<in># mset out" by simp
    then have "y \<in># mset ?h" using out(3) h'(3) by (simp add: q1_def)
    then show "TxNum (Version (?h ! 0)) \<le> TxNum (Version y)"
      using heap_root_min_set[OF Suc.prems(1)] by simp
  qed
  then have "sorted (map (TxNum \<circ> Version) (?h ! 0 # out))" using out(2) by simp
  moreover have "mset (?h ! 0 # out) = mset ?h" using out(3) h'(3) by (simp add: q1_def)
  moreover have "PopNext_times (Suc n) q = Inr (?h ! 0 # out, q\<lparr> results := [] \<rparr>)"
    using pn out(1) q1e by simp
  ultimately show ?case by blast
qed

lemma filter_key_singleton:
  "distinct (map f xs) \<Longrightarrow> k \<in> set xs \<Longrightarrow> filter (\<lambda>x. f k = f x) xs = [k]"
proof (induction xs)
  case Nil
  then show ?case by simp
next
  case (Cons a xs)
  show ?case
  proof (cases "a = k")
    case True
    have "filter (\<lambda>x. f k = f x) xs = []"
      using Cons.prems(1) True by (auto simp: filter_empty_conv)
    with True show ?thesis by simp
  next
    case False
    then have kx: "k \<in> set xs" using Cons.prems(2) by simp
    then have "f k \<in> f ` set xs" by simp
    moreover have "f a \<notin> f ` set xs" using Cons.prems(1) by simp
    ultimately have "f k \<noteq> f a" by metis
    then show ?thesis using Cons kx by simp
  qed
qed

lemma sorted_distinct_keys_unique:
  assumes "distinct (map f xs)" "mset ys = mset xs" "sorted (map f ys)"
  shows "ys = sort_key f xs"
proof -
  have d: "distinct (map f ys)"
    using assms(1,2) by (metis mset_map mset_eq_imp_distinct_iff)
  have s: "set ys = set xs" using assms(2) by (rule mset_eq_setD)
  have "\<And>k. k \<in> set ys \<Longrightarrow> filter (\<lambda>x. f k = f x) ys = filter (\<lambda>x. f k = f x) xs"
    using filter_key_singleton[OF d] filter_key_singleton[OF assms(1)] s by simp
  from properties_for_sort_key[OF assms(2) this assms(3)] show ?thesis by simp
qed

text \<open>
  C1.  Results with pairwise distinct TxNums are added to the queue in any arrival
  order (\<open>arrival\<close> is a permutation of \<open>rs\<close>) and swept into the empty heap by any
  number of \<open>DrainNonBlocking\<close> calls until the channel buffer is empty.  Then
  \<open>length rs\<close> calls of \<open>PopNext\<close> all succeed, leave the heap empty and return the
  results in strictly ascending TxNum order: the list \<open>sort_key (TxNum \<circ> Version) rs\<close>,
  which does not depend on the arrival order.  \<open>Less\<close> compares \<open>Version().TxNum\<close> only.
\<close>

theorem PopNext_ascending:
  assumes dk: "distinct (map (TxNum \<circ> Version) rs)"
    and perm: "mset arrival = mset rs"
    and empty: "results q = []"
    and added: "buf (resultCh q) = map Some arrival"
    and drains: "q' \<in> DrainNonBlocking_times ds q"
    and drained: "buf (resultCh q') = []"
  shows "PopNext_times (length rs) q' = Inr (sort_key (TxNum \<circ> Version) rs, q'\<lparr> results := [] \<rparr>)
       \<and> sorted_wrt (<) (map (TxNum \<circ> Version) (sort_key (TxNum \<circ> Version) rs))"
proof -
  let ?b = "buf (resultCh q)"
  from DrainNonBlocking_times_result[OF drains] obtain k where
    k: "k \<le> length ?b"
      "q' = q\<lparr> resultCh := (resultCh q)\<lparr> buf := drop k ?b \<rparr>,
             results := push_all (non_nil (take k ?b)) (results q) \<rparr>" by blast
  have bq': "buf (resultCh q') = drop k ?b" by (subst k(2)) simp
  with drained k(1) have "k = length ?b" by simp
  then have "results q' = push_all (non_nil ?b) (results q)" by (subst k(2)) simp
  then have res: "results q' = push_all arrival []" using added empty by simp
  have hp: "is_heap (results q')" unfolding res by (rule push_all_heap) simp
  have ms: "mset (results q') = mset rs" unfolding res using perm by (simp add: push_all_mset)
  then have len: "length rs = length (results q')" by (metis size_mset)
  from PopNext_times_sorted[OF hp len] obtain out where
    out: "PopNext_times (length rs) q' = Inr (out, q'\<lparr> results := [] \<rparr>)"
      "sorted (map (TxNum \<circ> Version) out)" "mset out = mset (results q')" by blast
  have "out = sort_key (TxNum \<circ> Version) rs"
    using sorted_distinct_keys_unique[OF dk _ out(2)] out(3) ms by simp
  moreover have "sorted_wrt (<) (map (TxNum \<circ> Version) (sort_key (TxNum \<circ> Version) rs))"
    using dk by (simp add: strict_sorted_iff distinct_map o_def inj_on_def) 
  ultimately show ?thesis using out(1) by simp
qed


theorem PopNext_ascending_witness:
  "PopNext_times 2
     \<lparr> limit = 10, rclosed = False,
       resultCh = \<lparr> buf = [], cap = 4, chan_closed = False \<rparr>,
       ticker_stopped = False,
       results = [\<lparr> Version = \<lparr> BlockNum = 1, TxNum = 3, TxIndex = 0 \<rparr>, body = () \<rparr>,
                  \<lparr> Version = \<lparr> BlockNum = 1, TxNum = 5, TxIndex = 2 \<rparr>, body = () \<rparr>] \<rparr>
   = Inr ([\<lparr> Version = \<lparr> BlockNum = 1, TxNum = 3, TxIndex = 0 \<rparr>, body = () \<rparr>,
           \<lparr> Version = \<lparr> BlockNum = 1, TxNum = 5, TxIndex = 2 \<rparr>, body = () \<rparr>],
          \<lparr> limit = 10, rclosed = False,
            resultCh = \<lparr> buf = [], cap = 4, chan_closed = False \<rparr>,
            ticker_stopped = False, results = [] \<rparr>)"
proof -
  define t3 :: "unit Task" where "t3 = \<lparr> Version = \<lparr> BlockNum = 1, TxNum = 3, TxIndex = 0 \<rparr>, body = () \<rparr>"
  define t5 :: "unit Task" where "t5 = \<lparr> Version = \<lparr> BlockNum = 1, TxNum = 5, TxIndex = 2 \<rparr>, body = () \<rparr>"
  define q :: "unit ResultsQueue" where
    "q = \<lparr> limit = 10, rclosed = False,
           resultCh = \<lparr> buf = map Some [t5, t3], cap = 4, chan_closed = False \<rparr>,
           ticker_stopped = False, results = [] \<rparr>"
  define q' :: "unit ResultsQueue" where
    "q' = \<lparr> limit = 10, rclosed = False,
           resultCh = \<lparr> buf = [], cap = 4, chan_closed = False \<rparr>,
           ticker_stopped = False, results = [t3, t5] \<rparr>"
  have k: "TxNum (Version t3) = 3" "TxNum (Version t5) = 5" by (simp_all add: t3_def t5_def)
  have h1: "distinct (map (TxNum \<circ> Version) [t3, t5])" by (simp add: k)
  have h2: "mset [t5, t3] = mset [t3, t5]" by simp
  have h3: "results q = []" by (simp add: q_def)
  have h4: "buf (resultCh q) = map Some [t5, t3]" by (simp add: q_def)
  have p1: "heap_Push [] t5 = [t5]"
    by (simp add: heap_Push_def up.simps)
  have p2: "heap_Push [t5] t3 = [t3, t5]"
    by (simp add: heap_Push_def up.simps Less_def Swap_def k)
  have h5: "q' \<in> DrainNonBlocking_times [False] q"
    by (simp add: DrainNonBlocking_def drainNoBlock_def drainNoBlock_loop.simps can_recv_def
        q_def q'_def p1 p2)
  have h6: "buf (resultCh q') = []" by (simp add: q'_def)
  have s: "sort_key (TxNum \<circ> Version) [t3, t5] = [t3, t5]" by (simp add: k)
  from PopNext_ascending[OF h1 h2 h3 h4 h5 h6]
  show ?thesis unfolding s by (simp add: q'_def t3_def t5_def numeral_2_eq_2)
qed

section \<open>The dispatch queue: retries first, closing, cancellation\<close>

lemma popNoWait_retry:
  assumes "is_heap (retires q)" "retires q \<noteq> []"
  shows "\<exists>h'. popNoWait q = Inr ((Some (retires q ! 0), True), q\<lparr> retires := h' \<rparr>)
        \<and> is_heap h' \<and> mset (retires q) = add_mset (retires q ! 0) (mset h')
        \<and> length (retires q) = Suc (length h')"
proof -
  from heap_Pop_props[OF assms] obtain h' where
    h': "heap_Pop (retires q) = Inr (retires q ! 0, h')" "is_heap h'"
      "mset (retires q) = add_mset (retires q ! 0) (mset h')" "length (retires q) = Suc (length h')"
    by blast
  then show ?thesis using assms(2) by (intro exI[of _ h']) (simp add: popNoWait_def)
qed

lemma Next_retry:
  assumes "is_heap (retires q)" "retires q \<noteq> []"
  shows "\<exists>h'. Next d q = {Returns ((Some (retires q ! 0), True), q\<lparr> retires := h' \<rparr>)}
        \<and> is_heap h' \<and> mset (retires q) = add_mset (retires q ! 0) (mset h')
        \<and> length (retires q) = Suc (length h')"
proof -
  from popNoWait_retry[OF assms] obtain h' where
    h': "popNoWait q = Inr ((Some (retires q ! 0), True), q\<lparr> retires := h' \<rparr>)" "is_heap h'"
      "mset (retires q) = add_mset (retires q ! 0) (mset h')" "length (retires q) = Suc (length h')"
    by blast
  then show ?thesis by (intro exI[of _ h']) (simp add: Next_def)
qed

lemma popNoWait_loop_shorter: "length (snd (popNoWait_loop xs)) \<le> length xs"
  by (induction xs rule: popNoWait_loop.induct) auto

lemma popNoWait_heap:
  assumes "is_heap (retires q)" "popNoWait q = Inr (r, q')"
  shows "is_heap (retires q')"
proof (cases "retires q = []")
  case True
  then show ?thesis using assms by (auto simp: popNoWait_def Let_def split: prod.splits)
next
  case False
  from popNoWait_retry[OF assms(1) False] assms(2) show ?thesis by auto
qed

lemma popWait_Nil:
  "buf (newTasks q) = [] \<Longrightarrow>
   popWait d q =
     (if \<not> d \<and> \<not> chan_closed (newTasks q) then {Blocks}
      else (if d then {Returns ((None, False), q)} else {}) \<union>
           (if chan_closed (newTasks q) then
              (if retires q \<noteq> [] then
                 {case heap_Pop (retires q) of
                    Inl e \<Rightarrow> Panics e
                  | Inr (task, h) \<Rightarrow> Returns ((Some task, True), q\<lparr> retires := h \<rparr>)}
               else {Returns ((None, False), q)})
            else {}))"
  by (subst popWait.simps) (simp add: can_recv_def)

lemma popWait_Cons:
  assumes "buf (newTasks q) = x # xs"
    and "q1 = q\<lparr> newTasks := (newTasks q)\<lparr> buf := xs \<rparr> \<rparr>"
    and "h1 = (case x of None \<Rightarrow> retires q | Some t \<Rightarrow> heap_Push (retires q) t)"
  shows "popWait d q =
     (if d then {Returns ((None, False), q)} else {}) \<union>
     (if h1 \<noteq> [] then
        {case heap_Pop h1 of
           Inl e \<Rightarrow> Panics e
         | Inr (task, h) \<Rightarrow> Returns ((Some task, True), q1\<lparr> retires := h \<rparr>)}
      else popWait d (q1\<lparr> retires := h1 \<rparr>))"
  unfolding assms(2,3) using assms(1)
  by (subst popWait.simps, cases x) (auto simp: can_recv_def Let_def)

lemma popWait_heap:
  "is_heap (retires q) \<Longrightarrow> Returns (r, q') \<in> popWait d q \<Longrightarrow> is_heap (retires q')"
proof (induction d q rule: popWait.induct)
  case (1 d q)
  show ?case
  proof (cases "buf (newTasks q)")
    case Nil
    show ?thesis
    proof (cases "retires q = []")
      case True
      then have "q' = q" using "1.prems"(2) popWait_Nil[OF Nil, of d]
        by (auto split: if_splits)
      then show ?thesis using "1.prems"(1) by simp
    next
      case False
      from heap_Pop_props[OF "1.prems"(1) False] obtain h' where
        h': "heap_Pop (retires q) = Inr (retires q ! 0, h')" "is_heap h'" by blast
      then have "q' = q \<or> q' = q\<lparr> retires := h' \<rparr>"
        using "1.prems"(2) popWait_Nil[OF Nil, of d] False by (auto split: if_splits)
      then show ?thesis using "1.prems"(1) h'(2) by auto
    qed
  next
    case (Cons x xs)
    define q1 where "q1 = q\<lparr> newTasks := (newTasks q)\<lparr> buf := xs \<rparr> \<rparr>"
    define h1 where "h1 = (case x of None \<Rightarrow> retires q | Some t \<Rightarrow> heap_Push (retires q) t)"
    have h1': "h1 = (case x of None \<Rightarrow> retires q1 | Some t \<Rightarrow> heap_Push (retires q1) t)"
      by (cases x) (simp_all add: h1_def q1_def)
    have hh1: "is_heap h1" using "1.prems"(1)
      by (auto simp: h1_def heap_Push_heap split: option.splits)
    have cr: "can_recv (newTasks q)" using Cons by (simp add: can_recv_def)
    have nb: "\<not> (\<not> d \<and> \<not> can_recv (newTasks q))" using cr by simp
    note eq = popWait_Cons[OF Cons q1_def h1_def, of d]
    show ?thesis
    proof (cases "h1 = []")
      case False
      from heap_Pop_props[OF hh1 False] obtain h' where
        h': "heap_Pop h1 = Inr (h1 ! 0, h')" "is_heap h'" by blast
      then have "q' = q \<or> q' = q1\<lparr> retires := h' \<rparr>"
        using "1.prems"(2) eq False by (auto split: if_splits)
      then show ?thesis using "1.prems"(1) h'(2) by auto
    next
      case True
      then have alt: "q' = q \<or> Returns (r, q') \<in> popWait d (q1\<lparr> retires := h1 \<rparr>)"
        using "1.prems"(2) eq by (auto split: if_splits)
      have hq: "is_heap (retires (q1\<lparr> retires := h1 \<rparr>))" using hh1 by simp
      have nl: "\<not> 0 < length h1" using True by simp
      show ?thesis
        using "1.IH"[OF nb cr Cons q1_def h1' nl hq] alt "1.prems"(1) by auto
    qed
  qed
qed

lemma reachable_heap: "reachable q \<Longrightarrow> is_heap (retires q)"
proof (induction rule: reachable.induct)
  case (reach_New n)
  then show ?case by (simp add: NewQueueWithRetry_def)
next
  case (reach_Add q q' d t)
  then show ?case by (auto simp: Add_def send_def split: if_splits)
next
  case (reach_ReTry q t q')
  then show ?case
    by (auto simp: ReTry_def Let_def send_def heap_Push_heap split: if_splits)
next
  case (reach_Next q r q' d)
  from reach_Next.hyps(2) obtain t ok q1 where
    p: "popNoWait q = Inr ((t, ok), q1)"
    by (cases "popNoWait q") (auto simp: Next_def)
  have h1: "is_heap (retires q1)" using popNoWait_heap[OF reach_Next.IH p] .
  show ?case
  proof (cases ok)
    case True
    then have "q' = q1" using reach_Next.hyps(2) p by (simp add: Next_def)
    with h1 show ?thesis by simp
  next
    case False
    then have "Returns (r, q') \<in> popWait d q1" using reach_Next.hyps(2) p by (simp add: Next_def)
    from popWait_heap[OF h1 this] show ?thesis .
  qed
next
  case (reach_Close q q')
  then show ?case by (auto simp: Close_def close_chan_def split: if_splits)
qed


lemma heap_Push_Nil: "heap_Push [] t = [t]"
  by (simp add: heap_Push_def up.simps)

lemma Next_times_retry:
  "is_heap (retires q) \<Longrightarrow> length ds = length (retires q) \<Longrightarrow>
   \<exists>ts. Next_times ds q = {Returns (map (\<lambda>t. (Some t, True)) ts, q\<lparr> retires := [] \<rparr>)}
       \<and> mset ts = mset (retires q)"
proof (induction ds arbitrary: q)
  case Nil
  then have "q\<lparr> retires := [] \<rparr> = q" by simp
  then show ?case using Nil by (intro exI[of _ "[]"]) simp
next
  case (Cons d ds)
  then have ne: "retires q \<noteq> []" by auto
  from Next_retry[OF Cons.prems(1) ne, of d] obtain h' where
    h': "Next d q = {Returns ((Some (retires q ! 0), True), q\<lparr> retires := h' \<rparr>)}" "is_heap h'"
      "mset (retires q) = add_mset (retires q ! 0) (mset h')" "length (retires q) = Suc (length h')"
    by blast
  define q1 where "q1 = q\<lparr> retires := h' \<rparr>"
  have "is_heap (retires q1)" "length ds = length (retires q1)"
    using h'(2,4) Cons.prems(2) by (simp_all add: q1_def)
  from Cons.IH[OF this] obtain ts where
    ts: "Next_times ds q1 = {Returns (map (\<lambda>t. (Some t, True)) ts, q1\<lparr> retires := [] \<rparr>)}"
      "mset ts = mset (retires q1)" by blast
  have q1e: "q1\<lparr> retires := [] \<rparr> = q\<lparr> retires := [] \<rparr>" by (simp add: q1_def)
  have "Next_times (d # ds) q
      = {Returns (map (\<lambda>t. (Some t, True)) (retires q ! 0 # ts), q\<lparr> retires := [] \<rparr>)}"
    using h'(1) ts(1) q1e by (simp add: q1_def)
  moreover have "mset (retires q ! 0 # ts) = mset (retires q)"
    using ts(2) h'(3) by (simp add: q1_def)
  ultimately show ?case by blast
qed

text \<open>
  C2.  In every state reachable from \<open>NewQueueWithRetry\<close> whose retry heap is not empty,
  \<open>Next\<close> has one outcome: it returns a retry task of minimum TxNum, removes it from
  the heap and leaves the fresh-task channel untouched.  In particular, after
  \<open>ReTry(t)\<close> and \<open>Add(u)\<close> on a new queue, in either order, \<open>Next\<close> returns \<open>t\<close>.
\<close>

theorem Next_prefers_retry:
  "(reachable (q :: 'p QueueWithRetry) \<and> retires q \<noteq> [] \<longrightarrow>
      (\<exists>h'. Next d q = {Returns ((Some (retires q ! 0), True), q\<lparr> retires := h' \<rparr>)}
            \<and> mset (retires q) = add_mset (retires q ! 0) (mset h'))
      \<and> (\<forall>y \<in> set (retires q). TxNum (Version (retires q ! 0)) \<le> TxNum (Version y)))
   \<and> (\<forall>q1 q2. ReTry (t :: 'p Task) (NewQueueWithRetry n) = Inr q1 \<and> Returns q2 \<in> Add d1 u q1
        \<longrightarrow> Next d2 q2 = {Returns ((Some t, True), q2\<lparr> retires := [] \<rparr>)})
   \<and> (\<forall>q1 q2. Returns q1 \<in> Add d1 u (NewQueueWithRetry n) \<and> ReTry t q1 = Inr q2
        \<longrightarrow> Next d2 q2 = {Returns ((Some t, True), q2\<lparr> retires := [] \<rparr>)})"
proof (intro conjI allI impI)
  assume a: "reachable q \<and> retires q \<noteq> []"
  then have hp: "is_heap (retires q)" by (simp add: reachable_heap)
  from Next_retry[OF hp, of d] a
  show "\<exists>h'. Next d q = {Returns ((Some (retires q ! 0), True), q\<lparr> retires := h' \<rparr>)}
            \<and> mset (retires q) = add_mset (retires q ! 0) (mset h')" by blast
  show "\<forall>y \<in> set (retires q). TxNum (Version (retires q ! 0)) \<le> TxNum (Version y)"
    using heap_root_min_set[OF hp] by blast
next
  fix q1 q2 :: "'p QueueWithRetry"
  assume a: "ReTry t (NewQueueWithRetry n) = Inr q1 \<and> Returns q2 \<in> Add d1 u q1"
  then have "retires q1 = [t]"
    by (auto simp: ReTry_def Let_def NewQueueWithRetry_def heap_Push_Nil send_def split: if_splits)
  then have r: "retires q2 = [t]" using a by (auto simp: Add_def send_def split: if_splits)
  then have hp: "is_heap (retires q2)" "retires q2 \<noteq> []"
    by (simp_all add: is_heap_def heap_upto_def)
  from Next_retry[OF hp, of d2] r
  show "Next d2 q2 = {Returns ((Some t, True), q2\<lparr> retires := [] \<rparr>)}" by auto
next
  fix q1 q2 :: "'p QueueWithRetry"
  assume a: "Returns q1 \<in> Add d1 u (NewQueueWithRetry n) \<and> ReTry t q1 = Inr q2"
  then have "retires q1 = []"
    by (auto simp: Add_def NewQueueWithRetry_def send_def split: if_splits)
  then have r: "retires q2 = [t]" using a
    by (auto simp: ReTry_def Let_def heap_Push_Nil send_def split: if_splits)
  then have hp: "is_heap (retires q2)" "retires q2 \<noteq> []"
    by (simp_all add: is_heap_def heap_upto_def)
  from Next_retry[OF hp, of d2] r
  show "Next d2 q2 = {Returns ((Some t, True), q2\<lparr> retires := [] \<rparr>)}" by auto
qed

theorem Next_prefers_retry_witness:
  "reachable (\<lparr> closed = False, newTasks = \<lparr> buf = [None, Some (\<lparr> Version = \<lparr> BlockNum = 1, TxNum = 3, TxIndex = 2 \<rparr>, body = () \<rparr>)], cap = 2, chan_closed = False \<rparr>, retires = [\<lparr> Version = \<lparr> BlockNum = 1, TxNum = 5, TxIndex = 4 \<rparr>, body = () \<rparr>], capacity = 2 \<rparr>)
   \<and> Next False (\<lparr> closed = False, newTasks = \<lparr> buf = [None, Some (\<lparr> Version = \<lparr> BlockNum = 1, TxNum = 3, TxIndex = 2 \<rparr>, body = () \<rparr>)], cap = 2, chan_closed = False \<rparr>, retires = [\<lparr> Version = \<lparr> BlockNum = 1, TxNum = 5, TxIndex = 4 \<rparr>, body = () \<rparr>], capacity = 2 \<rparr>)
       = {Returns ((Some (\<lparr> Version = \<lparr> BlockNum = 1, TxNum = 5, TxIndex = 4 \<rparr>, body = () \<rparr>), True),
                   \<lparr> closed = False, newTasks = \<lparr> buf = [None, Some (\<lparr> Version = \<lparr> BlockNum = 1, TxNum = 3, TxIndex = 2 \<rparr>, body = () \<rparr>)], cap = 2, chan_closed = False \<rparr>, retires = [], capacity = 2 \<rparr>)}"
proof -
  define t :: "unit Task" where "t = \<lparr> Version = \<lparr> BlockNum = 1, TxNum = 5, TxIndex = 4 \<rparr>, body = () \<rparr>"
  define u :: "unit Task" where "u = \<lparr> Version = \<lparr> BlockNum = 1, TxNum = 3, TxIndex = 2 \<rparr>, body = () \<rparr>"
  define q1 :: "unit QueueWithRetry" where "q1 = \<lparr> closed = False, newTasks = \<lparr> buf = [None], cap = 2, chan_closed = False \<rparr>, retires = [t], capacity = 2 \<rparr>"
  define q2 :: "unit QueueWithRetry" where "q2 = \<lparr> closed = False, newTasks = \<lparr> buf = [None, Some u], cap = 2, chan_closed = False \<rparr>, retires = [t], capacity = 2 \<rparr>"
  have r1: "ReTry t (NewQueueWithRetry 2) = Inr q1"
    by (simp add: ReTry_def NewQueueWithRetry_def make_chan_def can_send_def send_def
        heap_Push_Nil q1_def)
  have a2: "Returns q2 \<in> Add False u q1"
    by (simp add: Add_def can_send_def send_def q1_def q2_def)
  have reach: "reachable q2"
    by (rule reach_Add[OF reach_ReTry[OF reach_New r1] a2])
  have ne: "retires q2 \<noteq> []" by (simp add: q2_def)
  have nx: "Next False q2 = {Returns ((Some t, True), q2\<lparr> retires := [] \<rparr>)}"
    using Next_prefers_retry[of q2 False t 2 False u False] r1 a2 by blast
  have "\<exists>h'. Next False q2 = {Returns ((Some (retires q2 ! 0), True), q2\<lparr> retires := h' \<rparr>)}"
    using Next_prefers_retry[of q2 False t 2 False u False] reach ne by blast
  then show ?thesis using reach nx by (simp add: q2_def t_def u_def)
qed

text \<open>
  C8.  A second \<open>Close\<close> on either queue returns the state unchanged; closing has no
  blocking step.  After \<open>QueueWithRetry.Close\<close>, as many \<open>Next\<close> calls as the retry
  heap has tasks each return one of them with \<open>ok = true\<close> and leave the heap empty.
\<close>

theorem Close_idempotent:
  "(Close q = Inr q1 \<longrightarrow> Close q1 = Inr q1)
   \<and> (rClose r = Inr r1 \<longrightarrow> rClose r1 = Inr r1)
   \<and> (reachable q \<and> Close q = Inr q1 \<and> length ds = length (retires q1) \<longrightarrow>
        (\<exists>ts. Next_times ds q1 = {Returns (map (\<lambda>t. (Some t, True)) ts, q1\<lparr> retires := [] \<rparr>)}
              \<and> mset ts = mset (retires q1)))"
proof (intro conjI impI)
  assume "Close q = Inr q1"
  then show "Close q1 = Inr q1"
    by (auto simp: Close_def close_chan_def split: if_splits)
next
  assume "rClose r = Inr r1"
  then show "rClose r1 = Inr r1"
    by (auto simp: rClose_def close_chan_def split: if_splits)
next
  assume a: "reachable q \<and> Close q = Inr q1 \<and> length ds = length (retires q1)"
  then have "reachable q1" using reach_Close by blast
  then have "is_heap (retires q1)" by (rule reachable_heap)
  from Next_times_retry[OF this] a
  show "\<exists>ts. Next_times ds q1 = {Returns (map (\<lambda>t. (Some t, True)) ts, q1\<lparr> retires := [] \<rparr>)}
              \<and> mset ts = mset (retires q1)" by blast
qed

theorem Close_idempotent_witness:
  "Close (\<lparr> closed = False, newTasks = \<lparr> buf = [None], cap = 2, chan_closed = False \<rparr>, retires = [\<lparr> Version = \<lparr> BlockNum = 1, TxNum = 5, TxIndex = 4 \<rparr>, body = () \<rparr>], capacity = 2 \<rparr>)
     = Inr (\<lparr> closed = True, newTasks = \<lparr> buf = [None], cap = 2, chan_closed = True \<rparr>, retires = [\<lparr> Version = \<lparr> BlockNum = 1, TxNum = 5, TxIndex = 4 \<rparr>, body = () \<rparr>], capacity = 2 \<rparr>)
   \<and> Close (\<lparr> closed = True, newTasks = \<lparr> buf = [None], cap = 2, chan_closed = True \<rparr>, retires = [\<lparr> Version = \<lparr> BlockNum = 1, TxNum = 5, TxIndex = 4 \<rparr>, body = () \<rparr>], capacity = 2 \<rparr>)
     = Inr (\<lparr> closed = True, newTasks = \<lparr> buf = [None], cap = 2, chan_closed = True \<rparr>, retires = [\<lparr> Version = \<lparr> BlockNum = 1, TxNum = 5, TxIndex = 4 \<rparr>, body = () \<rparr>], capacity = 2 \<rparr>)
   \<and> rClose (\<lparr> limit = 8, rclosed = False, resultCh = \<lparr> buf = [], cap = 4, chan_closed = False \<rparr>, ticker_stopped = False, results = [] :: unit TxTaskQueue \<rparr>)
     = Inr (\<lparr> limit = 8, rclosed = True, resultCh = \<lparr> buf = [], cap = 4, chan_closed = True \<rparr>, ticker_stopped = True, results = [] :: unit TxTaskQueue \<rparr>)
   \<and> rClose (\<lparr> limit = 8, rclosed = True, resultCh = \<lparr> buf = [], cap = 4, chan_closed = True \<rparr>, ticker_stopped = True, results = [] :: unit TxTaskQueue \<rparr>)
     = Inr (\<lparr> limit = 8, rclosed = True, resultCh = \<lparr> buf = [], cap = 4, chan_closed = True \<rparr>, ticker_stopped = True, results = [] :: unit TxTaskQueue \<rparr>)
   \<and> Next_times [False] (\<lparr> closed = True, newTasks = \<lparr> buf = [None], cap = 2, chan_closed = True \<rparr>, retires = [\<lparr> Version = \<lparr> BlockNum = 1, TxNum = 5, TxIndex = 4 \<rparr>, body = () \<rparr>], capacity = 2 \<rparr>)
     = {Returns ([(Some (\<lparr> Version = \<lparr> BlockNum = 1, TxNum = 5, TxIndex = 4 \<rparr>, body = () \<rparr>), True)],
                 \<lparr> closed = True, newTasks = \<lparr> buf = [None], cap = 2, chan_closed = True \<rparr>, retires = [], capacity = 2 \<rparr>)}"
proof -
  define t :: "unit Task" where "t = \<lparr> Version = \<lparr> BlockNum = 1, TxNum = 5, TxIndex = 4 \<rparr>, body = () \<rparr>"
  define q :: "unit QueueWithRetry" where "q = \<lparr> closed = False, newTasks = \<lparr> buf = [None], cap = 2, chan_closed = False \<rparr>, retires = [t], capacity = 2 \<rparr>"
  define q1 :: "unit QueueWithRetry" where "q1 = \<lparr> closed = True, newTasks = \<lparr> buf = [None], cap = 2, chan_closed = True \<rparr>, retires = [t], capacity = 2 \<rparr>"
  define r :: "unit ResultsQueue" where "r = NewResultsQueue 4 8"
  define r1 :: "unit ResultsQueue" where "r1 = \<lparr> limit = 8, rclosed = True, resultCh = \<lparr> buf = [], cap = 4, chan_closed = True \<rparr>, ticker_stopped = True, results = [] :: unit TxTaskQueue \<rparr>"
  have rt: "ReTry t (NewQueueWithRetry 2) = Inr q"
    by (simp add: ReTry_def NewQueueWithRetry_def make_chan_def can_send_def send_def
        heap_Push_Nil q_def)
  have reach: "reachable q" by (rule reach_ReTry[OF reach_New rt])
  have c1: "Close q = Inr q1" by (simp add: Close_def close_chan_def q_def q1_def)
  have c2: "rClose r = Inr r1"
    by (simp add: rClose_def close_chan_def r_def r1_def NewResultsQueue_def make_chan_def)
  have len: "length [False] = length (retires q1)" by (simp add: q1_def)
  note th = Close_idempotent[of q q1 r r1 "[False]"]
  from th c1 have i1: "Close q1 = Inr q1" by blast
  from th c2 have i2: "rClose r1 = Inr r1" by blast
  from th reach c1 len obtain ts where
    ts: "Next_times [False] q1 = {Returns (map (\<lambda>t. (Some t, True)) ts, q1\<lparr> retires := [] \<rparr>)}"
      "mset ts = mset (retires q1)" by blast
  from ts(2) have "ts = [t]" by (simp add: q1_def)
  with ts(1) have n: "Next_times [False] q1 = {Returns ([(Some t, True)], q1\<lparr> retires := [] \<rparr>)}"
    by simp
  show ?thesis
    using c1 i1 c2 i2 n
    by (simp add: q_def q1_def r_def r1_def t_def NewResultsQueue_def make_chan_def)
qed

text \<open>
  C9.  With the context already cancelled \<open>Add\<close> never blocks and can return without
  enqueuing; when the send cannot proceed (the buffer is full) that is its only
  outcome.  When the buffer has room the \<open>select\<close> has two ready cases and the task
  may be enqueued all the same.  \<open>Next\<close> on a cancelled context with an empty heap and
  an empty buffer returns \<open>(nil, false)\<close>.
\<close>

theorem Add_cancelled:
  "Blocks \<notin> Add True t q
   \<and> Returns q \<in> Add True t q
   \<and> Add True t q \<subseteq> {Returns q,
         Returns (q\<lparr> newTasks := (newTasks q)\<lparr> buf := buf (newTasks q) @ [Some t] \<rparr> \<rparr>),
         Panics SendOnClosedChannel}
   \<and> (\<not> can_send (newTasks q) \<longrightarrow> Add True t q = {Returns q})
   \<and> (retires q = [] \<and> buf (newTasks q) = [] \<longrightarrow> Next True q = {Returns ((None, False), q)})"
proof (intro conjI impI)
  show "Blocks \<notin> Add True t q" by (auto simp: Add_def send_def)
  show "Returns q \<in> Add True t q" by (simp add: Add_def)
  show "Add True t q \<subseteq> {Returns q,
         Returns (q\<lparr> newTasks := (newTasks q)\<lparr> buf := buf (newTasks q) @ [Some t] \<rparr> \<rparr>),
         Panics SendOnClosedChannel}" by (auto simp: Add_def send_def)
next
  assume "\<not> can_send (newTasks q)"
  then show "Add True t q = {Returns q}" by (simp add: Add_def)
next
  assume a: "retires q = [] \<and> buf (newTasks q) = []"
  then have qe: "q\<lparr> newTasks := (newTasks q)\<lparr> buf := [] \<rparr> \<rparr> = q" by simp
  have "popNoWait q = Inr ((None, False), q)" using a qe by (simp add: popNoWait_def)
  moreover have "popWait True q = {Returns ((None, False), q)}"
    using popWait_Nil[of q True] a by auto
  ultimately show "Next True q = {Returns ((None, False), q)}" by (simp add: Next_def)
qed

theorem Add_cancelled_witness:
  "\<not> can_send (newTasks (\<lparr> closed = False, newTasks = \<lparr> buf = [Some (\<lparr> Version = \<lparr> BlockNum = 1, TxNum = 3, TxIndex = 2 \<rparr>, body = () \<rparr>)], cap = 1, chan_closed = False \<rparr>, retires = [], capacity = 1 \<rparr>))
   \<and> Add True (\<lparr> Version = \<lparr> BlockNum = 1, TxNum = 5, TxIndex = 4 \<rparr>, body = () \<rparr>) (\<lparr> closed = False, newTasks = \<lparr> buf = [Some (\<lparr> Version = \<lparr> BlockNum = 1, TxNum = 3, TxIndex = 2 \<rparr>, body = () \<rparr>)], cap = 1, chan_closed = False \<rparr>, retires = [], capacity = 1 \<rparr>)
       = {Returns (\<lparr> closed = False, newTasks = \<lparr> buf = [Some (\<lparr> Version = \<lparr> BlockNum = 1, TxNum = 3, TxIndex = 2 \<rparr>, body = () \<rparr>)], cap = 1, chan_closed = False \<rparr>, retires = [], capacity = 1 \<rparr>)}
   \<and> Next True (\<lparr> closed = False, newTasks = \<lparr> buf = [], cap = 1, chan_closed = False \<rparr>, retires = [] :: unit TxTaskQueue, capacity = 1 \<rparr>)
       = {Returns ((None, False), \<lparr> closed = False, newTasks = \<lparr> buf = [], cap = 1, chan_closed = False \<rparr>, retires = [] :: unit TxTaskQueue, capacity = 1 \<rparr>)}"
proof -
  define t :: "unit Task" where "t = \<lparr> Version = \<lparr> BlockNum = 1, TxNum = 5, TxIndex = 4 \<rparr>, body = () \<rparr>"
  define qf :: "unit QueueWithRetry" where "qf = \<lparr> closed = False, newTasks = \<lparr> buf = [Some (\<lparr> Version = \<lparr> BlockNum = 1, TxNum = 3, TxIndex = 2 \<rparr>, body = () \<rparr>)], cap = 1, chan_closed = False \<rparr>, retires = [], capacity = 1 \<rparr>"
  define qe :: "unit QueueWithRetry" where "qe = \<lparr> closed = False, newTasks = \<lparr> buf = [], cap = 1, chan_closed = False \<rparr>, retires = [] :: unit TxTaskQueue, capacity = 1 \<rparr>"
  have full: "\<not> can_send (newTasks qf)" by (simp add: qf_def can_send_def)
  have em: "retires qe = [] \<and> buf (newTasks qe) = []" by (simp add: qe_def)
  from Add_cancelled[of t qf] full have a: "Add True t qf = {Returns qf}" by blast
  from Add_cancelled[of t qe] em have n: "Next True qe = {Returns ((None, False), qe)}" by blast
  show ?thesis using full a n by (simp add: qf_def qe_def t_def)
qed

text \<open>
  The claim as stated, that a cancelled \<open>Add\<close> leaves the fresh-task buffer unchanged,
  fails on a queue with room in its buffer: sending is one of the two ready cases of
  the \<open>select\<close>, and the outcome in which it is picked has the task enqueued.
\<close>

theorem Add_cancelled_counterexample:
  "Returns (\<lparr> closed = False, newTasks = \<lparr> buf = [Some (\<lparr> Version = \<lparr> BlockNum = 1, TxNum = 5, TxIndex = 4 \<rparr>, body = () \<rparr>)], cap = 1, chan_closed = False \<rparr>, retires = [], capacity = 1 \<rparr>)
     \<in> Add True (\<lparr> Version = \<lparr> BlockNum = 1, TxNum = 5, TxIndex = 4 \<rparr>, body = () \<rparr>) (NewQueueWithRetry 1)"
  by (simp add: Add_def NewQueueWithRetry_def make_chan_def can_send_def send_def)

section \<open>Dependency edges\<close>

lemma Search_loop_less:
  "i < j \<Longrightarrow> j \<le> length a \<Longrightarrow> x \<le> a ! (j - 1) \<Longrightarrow> Search_loop a x i j < j"
proof (induction a x i j rule: Search_loop.induct)
  case (1 a x i j)
  define h where "h = (i + j) div 2"
  have hb: "i \<le> h" "h < j" using "1.prems"(1) by (auto simp: h_def)
  have hh: "h = (i + j) div 2" by (rule h_def)
  show ?case
  proof (cases "a ! h \<ge> x")
    case True
    have "Search_loop a x i j = Search_loop a x i h"
      using "1.prems"(1) True by (subst Search_loop.simps) (simp add: h_def Let_def)
    moreover have "Search_loop a x i h \<le> h" using Search_loop_bounds[OF hb(1)] by simp
    ultimately show ?thesis using hb by simp
  next
    case False
    have eq: "Search_loop a x i j = Search_loop a x (h + 1) j"
      using "1.prems"(1) False by (subst Search_loop.simps) (simp add: h_def Let_def)
    have "h \<noteq> j - 1" using False "1.prems"(3) by auto
    then have lt: "h + 1 < j" using hb by simp
    from "1.IH"(1)[OF "1.prems"(1) hh _ lt "1.prems"(2,3)] False eq show ?thesis by simp
  qed
qed

lemma SearchInts_less:
  "l \<noteq> [] \<Longrightarrow> v \<le> l ! (length l - 1) \<Longrightarrow> SearchInts l v < length l"
  unfolding SearchInts_def by (rule Search_loop_less) simp_all

lemma insertInList_set: "set (insertInList l v) = insert v (set l)"
proof (cases "length l = 0 \<or> v > l ! (length l - 1)")
  case True
  then show ?thesis by (auto simp: insertInList_def)
next
  case False
  then have x: "SearchInts l v < length l" using SearchInts_less[of l v] by auto
  show ?thesis
  proof (cases "l ! SearchInts l v = v")
    case True
    then have "v \<in> set l" using x by (metis nth_mem)
    then show ?thesis using False x True by (auto simp: insertInList_def Let_def)
  next
    case ne: False
    have "set (take (SearchInts l v) l @ v # drop (SearchInts l v) l) = insert v (set l)"
      using set_append[of "take (SearchInts l v) l" "drop (SearchInts l v) l"] by auto
    then show ?thesis using False x ne by (simp add: insertInList_def Let_def insert_slice_eq)
  qed
qed

lemma checkComplete_mem: "checkComplete m tx \<Longrightarrow> tx \<in> set (complete m)"
  unfolding checkComplete_def Let_def by (metis nth_mem)

lemma checkPending_mem: "checkPending m tx \<Longrightarrow> tx \<in> set (pending m)"
  unfolding checkPending_def Let_def by (metis nth_mem)

lemma checkInProgress_mem: "checkInProgress m tx \<Longrightarrow> tx \<in> set (inProgress m)"
  unfolding checkInProgress_def Let_def by (metis nth_mem)

text \<open>
  C4.  \<open>addDependencies(blocker, dependent)\<close> changes nothing when \<open>blocker < 0\<close> or
  \<open>blocker \<ge> dependent\<close>.  For \<open>0 \<le> blocker < dependent\<close>: when the blocker has completed
  the lists and the dependency map are unchanged and the blocker is not among the
  dependent's blockers afterwards; otherwise the edge is recorded in both maps and
  the dependent is blocked.
\<close>

theorem addDependencies_cases:
  "(b < 0 \<or> b \<ge> d \<longrightarrow> addDependencies m b d = (False, m))
   \<and> (0 \<le> b \<and> b < d \<and> checkComplete m b \<longrightarrow>
        dependency (snd (addDependencies m b d)) = dependency m
        \<and> pending (snd (addDependencies m b d)) = pending m
        \<and> inProgress (snd (addDependencies m b d)) = inProgress m
        \<and> complete (snd (addDependencies m b d)) = complete m
        \<and> (\<forall>s. blocker (snd (addDependencies m b d)) d = Some s \<longrightarrow> b \<notin> s))
   \<and> (0 \<le> b \<and> b < d \<and> \<not> checkComplete m b \<longrightarrow>
        fst (addDependencies m b d)
        \<and> (\<exists>s. dependency (snd (addDependencies m b d)) b = Some s \<and> d \<in> s)
        \<and> (\<exists>s. blocker (snd (addDependencies m b d)) d = Some s \<and> b \<in> s)
        \<and> isBlocked (snd (addDependencies m b d)) d)"
  by (auto simp: addDependencies_def isBlocked_def Let_def split: option.splits)

theorem addDependencies_cases_witness:
  "addDependencies (newStatusManager 6) 7 5 = (False, newStatusManager 6)
   \<and> isBlocked (snd (addDependencies (newStatusManager 6) 2 5)) 5
   \<and> \<not> isBlocked (snd (addDependencies
          \<lparr> pending = [], inProgress = [], complete = [2], dependency = Map.empty,
            blocker = [5 \<mapsto> {2}] \<rparr> 2 5)) 5"
proof -
  let ?m = "\<lparr> pending = [], inProgress = [], complete = [2], dependency = Map.empty,
            blocker = [5 \<mapsto> {2 :: int}] \<rparr>"
  have c0: "\<not> checkComplete (newStatusManager 6) 2"
    by (simp add: checkComplete_def newStatusManager_def SearchInts_def Search_loop.simps)
  have c1: "checkComplete ?m 2"
    by (simp add: checkComplete_def SearchInts_def Search_loop.simps)
  have a: "addDependencies (newStatusManager 6) 7 5 = (False, newStatusManager 6)"
    using addDependencies_cases[of 7 5 "newStatusManager 6"] by simp
  have b: "isBlocked (snd (addDependencies (newStatusManager 6) 2 5)) 5"
    using addDependencies_cases[of 2 5 "newStatusManager 6"] c0 by simp
  have "\<forall>s. blocker (snd (addDependencies ?m 2 5)) 5 = Some s \<longrightarrow> 2 \<notin> s"
    using addDependencies_cases[of 2 5 ?m] c1 by simp
  moreover have "blocker (snd (addDependencies ?m 2 5)) 5 = Some {}"
    using c1 by (simp add: addDependencies_def)
  ultimately have c: "\<not> isBlocked (snd (addDependencies ?m 2 5)) 5"
    by (simp add: isBlocked_def)
  from a b c show ?thesis by simp
qed

text \<open>
  The claim as stated has the edge recorded whenever the blocker is smaller than the
  dependent and has not completed.  For the block-start index \<open>-1\<close> the guard
  \<open>blocker < 0\<close> returns first: nothing is recorded and the dependent is not blocked.
\<close>

theorem addDependencies_negative_counterexample:
  "\<not> (- 1 :: int) \<ge> 5
   \<and> \<not> checkComplete (newStatusManager 6) (- 1)
   \<and> \<not> isBlocked (snd (addDependencies (newStatusManager 6) (- 1) 5)) 5
   \<and> dependency (snd (addDependencies (newStatusManager 6) (- 1) 5)) (- 1) = None"
  by (simp add: addDependencies_def isBlocked_def checkComplete_def newStatusManager_def
      SearchInts_def Search_loop.simps)

section \<open>Releasing dependents\<close>

lemma removeDependency_step_props:
  fixes m :: execStatusManager and tx k :: int
  defines "m' \<equiv> removeDependency_step tx k m"
  shows "complete m' = complete m" "inProgress m' = inProgress m" "dependency m' = dependency m"
    and "set (pending m) \<subseteq> set (pending m')"
    and "x \<noteq> k \<Longrightarrow> blocker m' x = blocker m x"
    and "blocker m' k = map_option (\<lambda>s. s - {tx}) (blocker m k)"
    and "blocker m' k = None \<or> blocker m' k = Some {} \<Longrightarrow> k \<notin> set (complete m) \<Longrightarrow>
         k \<notin> set (inProgress m) \<Longrightarrow> k \<in> set (pending m')"
proof -
  define m1 where "m1 = (case blocker m k of None \<Rightarrow> m
                | Some s \<Rightarrow> m\<lparr> blocker := (blocker m)(k \<mapsto> s - {tx}) \<rparr>)"
  have m1: "complete m1 = complete m" "inProgress m1 = inProgress m" "dependency m1 = dependency m"
    "pending m1 = pending m" "blocker m1 k = map_option (\<lambda>s. s - {tx}) (blocker m k)"
    "\<And>x. x \<noteq> k \<Longrightarrow> blocker m1 x = blocker m x"
    by (auto simp: m1_def split: option.splits)
  have m': "m' = m1 \<or> (m' = pushPending m1 k)"
    unfolding m'_def removeDependency_step_def m1_def[symmetric] Let_def by auto
  then show "complete m' = complete m" "inProgress m' = inProgress m" "dependency m' = dependency m"
    "set (pending m) \<subseteq> set (pending m')" "blocker m' k = map_option (\<lambda>s. s - {tx}) (blocker m k)"
    using m1 by (auto simp: pushPending_def insertInList_set)
  show "x \<noteq> k \<Longrightarrow> blocker m' x = blocker m x"
    using m' m1 by (auto simp: pushPending_def)
  assume e: "blocker m' k = None \<or> blocker m' k = Some {}"
    and nc: "k \<notin> set (complete m)" and ni: "k \<notin> set (inProgress m)"
  have b1: "blocker m1 k = blocker m' k" using m' by (auto simp: pushPending_def)
  have cond: "(case blocker m1 k of None \<Rightarrow> True | Some s \<Rightarrow> s = {})"
    using e b1 by (auto split: option.splits)
  have "\<not> checkComplete m1 k" "\<not> checkInProgress m1 k"
    using nc ni m1 checkComplete_mem[of m1 k] checkInProgress_mem[of m1 k] by auto
  then have "m' = (if \<not> checkPending m1 k then pushPending m1 k else m1)"
    unfolding m'_def removeDependency_step_def m1_def[symmetric] Let_def using cond by simp
  then show "k \<in> set (pending m')"
    using checkPending_mem[of m1 k] by (auto simp: pushPending_def insertInList_set)
qed

lemma removeDependency_fold_props:
  fixes m :: execStatusManager and tx :: int and ks :: "int list"
  assumes "distinct ks"
  defines "m' \<equiv> fold (removeDependency_step tx) ks m"
  shows "complete m' = complete m \<and> inProgress m' = inProgress m \<and> dependency m' = dependency m
       \<and> set (pending m) \<subseteq> set (pending m')
       \<and> (\<forall>x. x \<notin> set ks \<longrightarrow> blocker m' x = blocker m x)
       \<and> (\<forall>x \<in> set ks. blocker m' x = map_option (\<lambda>s. s - {tx}) (blocker m x)
             \<and> ((blocker m' x = None \<or> blocker m' x = Some {}) \<and> x \<notin> set (complete m)
                  \<and> x \<notin> set (inProgress m) \<longrightarrow> x \<in> set (pending m')))"
  using assms(1) unfolding m'_def
proof (induction ks arbitrary: m)
  case Nil
  then show ?case by simp
next
  case (Cons k ks)
  define m1 where "m1 = removeDependency_step tx k m"
  note st = removeDependency_step_props[where tx=tx and k=k and m=m, folded m1_def]
  have d: "distinct ks" "k \<notin> set ks" using Cons.prems by auto
  note ih = Cons.IH[OF d(1), of m1]
  define m2 where "m2 = fold (removeDependency_step tx) ks m1"
  have f: "fold (removeDependency_step tx) (k # ks) m = m2" by (simp add: m2_def m1_def)
  have bk: "blocker m2 k = blocker m1 k" using ih d(2) by (simp add: m2_def)
  have pk: "set (pending m1) \<subseteq> set (pending m2)" using ih by (simp add: m2_def)
  have k5: "(blocker m2 k = None \<or> blocker m2 k = Some {}) \<and> k \<notin> set (complete m)
                  \<and> k \<notin> set (inProgress m) \<longrightarrow> k \<in> set (pending m2)"
    using st(7) bk pk by auto
  have other: "\<forall>x \<in> set ks. blocker m2 x = map_option (\<lambda>s. s - {tx}) (blocker m x)
             \<and> ((blocker m2 x = None \<or> blocker m2 x = Some {}) \<and> x \<notin> set (complete m)
                  \<and> x \<notin> set (inProgress m) \<longrightarrow> x \<in> set (pending m2))"
  proof
    fix x assume x: "x \<in> set ks"
    then have "x \<noteq> k" using d(2) by auto
    then have "blocker m1 x = blocker m x" by (rule st(5))
    then show "blocker m2 x = map_option (\<lambda>s. s - {tx}) (blocker m x)
             \<and> ((blocker m2 x = None \<or> blocker m2 x = Some {}) \<and> x \<notin> set (complete m)
                  \<and> x \<notin> set (inProgress m) \<longrightarrow> x \<in> set (pending m2))"
      using ih x st(1,2) by (simp add: m2_def)
  qed
  have "complete m2 = complete m \<and> inProgress m2 = inProgress m \<and> dependency m2 = dependency m
       \<and> set (pending m) \<subseteq> set (pending m2)"
    using ih st(1,2,3,4) by (auto simp: m2_def)
  moreover have "\<forall>x. x \<notin> set (k # ks) \<longrightarrow> blocker m2 x = blocker m x"
    using ih st(5) by (auto simp: m2_def)
  moreover have "blocker m2 k = map_option (\<lambda>s. s - {tx}) (blocker m k)"
    using bk st(6) by simp
  ultimately show ?case unfolding f using k5 other by simp
qed


lemma checkComplete_Nil: "complete m = [] \<Longrightarrow> \<not> checkComplete m x"
  by (simp add: checkComplete_def SearchInts_def Search_loop.simps)

lemma addDependencies_lists:
  "complete (snd (addDependencies m b d)) = complete m"
  "inProgress (snd (addDependencies m b d)) = inProgress m"
  "pending (snd (addDependencies m b d)) = pending m"
  by (auto simp: addDependencies_def Let_def split: option.splits)

lemma removeDependency_props:
  fixes m :: execStatusManager
  assumes dep: "dependency m tx = Some deps" and x: "x \<in> deps" and ro: "range_order ks deps"
  defines "m' \<equiv> removeDependency ks m tx"
  shows "complete m' = complete m" "inProgress m' = inProgress m"
    and "\<And>y. y \<noteq> tx \<Longrightarrow> dependency m' y = dependency m y"
    and "blocker m' x = map_option (\<lambda>s. s - {tx}) (blocker m x)"
    and "blocker m' x = None \<or> blocker m' x = Some {} \<Longrightarrow> x \<notin> set (complete m) \<Longrightarrow>
         x \<notin> set (inProgress m) \<Longrightarrow> x \<in> set (pending m')"
proof -
  define m1 where "m1 = fold (removeDependency_step tx) ks m"
  have ne: "deps \<noteq> {}" using x by auto
  have d: "distinct ks" and xk: "x \<in> set ks" using ro x by (auto simp: range_order_def)
  have m': "m' = m1\<lparr> dependency := (dependency m1)(tx := None) \<rparr>"
    unfolding m'_def removeDependency_def using dep ne by (simp add: Let_def m1_def)
  note f = removeDependency_fold_props[OF d, of tx m, folded m1_def]
  show "complete m' = complete m" "inProgress m' = inProgress m" using f m' by simp_all
  show "\<And>y. y \<noteq> tx \<Longrightarrow> dependency m' y = dependency m y" using f m' by simp
  show b: "blocker m' x = map_option (\<lambda>s. s - {tx}) (blocker m x)" using f m' xk by simp
  assume "blocker m' x = None \<or> blocker m' x = Some {}" "x \<notin> set (complete m)"
    "x \<notin> set (inProgress m)"
  then show "x \<in> set (pending m')" using f m' xk by simp
qed

text \<open>
  C5.  In a state where tasks 2 and 3 have not completed, task 5 is in none of the three
  lists and no blocker is recorded for task 5 yet: after \<open>addDependencies(2,5)\<close> and
  \<open>addDependencies(3,5)\<close> task 5 is blocked, after \<open>removeDependency(2)\<close> it is still
  blocked, and after \<open>removeDependency(3)\<close> its blocker set is empty and it is in the
  pending list.  \<open>ks2\<close> and \<open>ks3\<close> are the orders in which the two \<open>range\<close> iterations visit
  their maps; the result holds for every order.
\<close>

theorem dependencies_2_3_release_5:
  fixes m :: execStatusManager
  assumes nc: "2 \<notin> set (complete m)" "3 \<notin> set (complete m)"
    and n5: "5 \<notin> set (pending m)" "5 \<notin> set (inProgress m)" "5 \<notin> set (complete m)"
    and nb: "blocker m 5 = None \<or> blocker m 5 = Some {}"
    and m1: "m1 = snd (addDependencies m 2 5)"
    and m2: "m2 = snd (addDependencies m1 3 5)"
    and o2: "dependency m2 2 = Some d2" "range_order ks2 d2"
    and m3: "m3 = removeDependency ks2 m2 2"
    and o3: "dependency m3 3 = Some d3" "range_order ks3 d3"
    and m4: "m4 = removeDependency ks3 m3 3"
  shows "isBlocked m2 5 \<and> isBlocked m3 5 \<and> blocker m4 5 = Some {} \<and> \<not> isBlocked m4 5
       \<and> 5 \<in> set (pending m4)"
proof -
  have c2: "\<not> checkComplete m 2" using nc(1) checkComplete_mem by blast
  have l1: "complete m1 = complete m" "inProgress m1 = inProgress m"
    and b1: "blocker m1 5 = Some {2}"
    and d1: "\<exists>s. dependency m1 2 = Some s \<and> 5 \<in> s"
    using c2 nb unfolding m1 by (auto simp: addDependencies_def Let_def split: option.splits)
  have c3: "\<not> checkComplete m1 3" using nc(2) l1(1) checkComplete_mem[of m1 3] by auto
  have l2: "complete m2 = complete m" "inProgress m2 = inProgress m"
    and b2: "blocker m2 5 = Some {2, 3}"
    and d2a: "\<exists>s. dependency m2 2 = Some s \<and> 5 \<in> s"
    and d2b: "\<exists>s. dependency m2 3 = Some s \<and> 5 \<in> s"
    using c3 b1 d1 l1 unfolding m2
    by (auto simp: addDependencies_def Let_def split: option.splits)
  have x2: "5 \<in> d2" using d2a o2(1) by auto
  note r2 = removeDependency_props[OF o2(1) x2 o2(2), folded m3]
  have b3: "blocker m3 5 = Some {3}" using r2(4) b2 by auto
  have "dependency m3 3 = dependency m2 3" using r2(3)[of 3] by simp
  then have x3: "5 \<in> d3" using d2b o3(1) by auto
  note r3 = removeDependency_props[OF o3(1) x3 o3(2), folded m4]
  have b4: "blocker m4 5 = Some {}" using r3(4) b3 by simp
  have "5 \<in> set (pending m4)"
    using r3(5) b4 r2(1,2) l2 n5 by simp
  then show ?thesis using b2 b3 b4 by (simp add: isBlocked_def)
qed

theorem dependencies_2_3_release_5_witness:
  "isBlocked (snd (addDependencies (snd (addDependencies (newStatusManager 5) 2 5)) 3 5)) 5
   \<and> 5 \<in> set (pending (removeDependency [5] (removeDependency [5]
          (snd (addDependencies (snd (addDependencies (newStatusManager 5) 2 5)) 3 5)) 2) 3))"
proof -
  define m where "m = newStatusManager 5"
  define m1 where "m1 = snd (addDependencies m 2 5)"
  define m2 where "m2 = snd (addDependencies m1 3 5)"
  define m3 where "m3 = removeDependency [5] m2 2"
  define m4 where "m4 = removeDependency [5] m3 3"
  have lists: "pending m = [0, 1, 2, 3, 4]" "inProgress m = []" "complete m = []"
    "blocker m 5 = None" "dependency m = Map.empty"
    by (simp_all add: m_def newStatusManager_def upt_rec)
  have c: "\<And>x. \<not> checkComplete m x" "\<And>x. \<not> checkComplete m1 x"
    by (simp_all add: checkComplete_Nil m1_def addDependencies_lists lists)
  have dm1: "dependency m1 = [2 \<mapsto> {5}]"
    by (simp add: m1_def addDependencies_def c lists)
  have dm2: "dependency m2 2 = Some {5}" "dependency m2 3 = Some {5}"
    by (simp_all add: m2_def addDependencies_def c dm1)
  have dm3: "dependency m3 3 = Some {5}"
    by (simp add: m3_def removeDependency_def dm2 Let_def removeDependency_step_props(3))
  have ro: "range_order [5] {5}" by (simp add: range_order_def)
  have h: "2 \<notin> set (complete m)" "3 \<notin> set (complete m)" "5 \<notin> set (pending m)"
    "5 \<notin> set (inProgress m)" "5 \<notin> set (complete m)" "blocker m 5 = None \<or> blocker m 5 = Some {}"
    by (simp_all add: lists)
  from dependencies_2_3_release_5[OF h m1_def m2_def dm2(1) ro m3_def dm3 ro m4_def]
  show ?thesis unfolding m4_def m3_def m2_def m1_def m_def by simp
qed

text \<open>
  The claim as stated, for any state with 2 and 3 not completed and 5 in none of the
  lists, fails when task 5 already has another blocker.  \<open>blocked_before\<close> is the state
  after \<open>newStatusManager(5)\<close> and \<open>addDependencies(1,5)\<close>: at the end task 5 is still
  blocked by task 1 and has not been moved to pending.
\<close>

theorem dependencies_2_3_release_5_counterexample:
  "2 \<notin> set (complete blocked_before) \<and> 3 \<notin> set (complete blocked_before)
   \<and> 5 \<notin> set (pending blocked_before) \<and> 5 \<notin> set (inProgress blocked_before)
   \<and> 5 \<notin> set (complete blocked_before)
   \<and> dependency (snd (addDependencies (snd (addDependencies blocked_before 2 5)) 3 5)) 2 = Some {5}
   \<and> dependency (removeDependency [5]
          (snd (addDependencies (snd (addDependencies blocked_before 2 5)) 3 5)) 2) 3 = Some {5}
   \<and> blocker (removeDependency [5] (removeDependency [5]
          (snd (addDependencies (snd (addDependencies blocked_before 2 5)) 3 5)) 2) 3) 5 = Some {1}
   \<and> isBlocked (removeDependency [5] (removeDependency [5]
          (snd (addDependencies (snd (addDependencies blocked_before 2 5)) 3 5)) 2) 3) 5
   \<and> 5 \<notin> set (pending (removeDependency [5] (removeDependency [5]
          (snd (addDependencies (snd (addDependencies blocked_before 2 5)) 3 5)) 2) 3))"
proof -
  define m where "m = blocked_before"
  define m1 where "m1 = snd (addDependencies m 2 5)"
  define m2 where "m2 = snd (addDependencies m1 3 5)"
  define m3 where "m3 = removeDependency [5] m2 2"
  define m4 where "m4 = removeDependency [5] m3 3"
  define m0 where "m0 = newStatusManager 5"
  have m0: "pending m0 = [0, 1, 2, 3, 4]" "inProgress m0 = []" "complete m0 = []"
    "blocker m0 5 = None" "dependency m0 = Map.empty"
    by (simp_all add: m0_def newStatusManager_def upt_rec)
  have c0: "\<And>x. \<not> checkComplete m0 x" by (simp add: checkComplete_Nil m0)
  have mm: "m = snd (addDependencies m0 1 5)" by (simp add: m_def blocked_before_def m0_def)
  have m: "pending m = [0, 1, 2, 3, 4]" "inProgress m = []" "complete m = []"
    "blocker m 5 = Some {1}" "dependency m 2 = None" "dependency m 3 = None"
    by (simp_all add: mm addDependencies_lists m0) (simp_all add: addDependencies_def c0 m0)
  have c: "\<And>x. \<not> checkComplete m x" by (simp add: checkComplete_Nil m)
  have m1: "pending m1 = pending m" "inProgress m1 = []" "complete m1 = []"
    "blocker m1 5 = Some {1, 2}" "dependency m1 2 = Some {5}" "dependency m1 3 = None"
    by (simp_all add: m1_def addDependencies_lists m) (auto simp: addDependencies_def c m)
  have c1: "\<And>x. \<not> checkComplete m1 x" by (simp add: checkComplete_Nil m1)
  have m2: "pending m2 = pending m" "inProgress m2 = []" "complete m2 = []"
    "blocker m2 5 = Some {1, 2, 3}" "dependency m2 2 = Some {5}" "dependency m2 3 = Some {5}"
    by (simp_all add: m2_def addDependencies_lists m1) (auto simp: addDependencies_def c1 m1)
  have ro: "range_order [5] {5}" by (simp add: range_order_def)
  have x: "(5::int) \<in> {5}" by simp
  note r2 = removeDependency_props[OF m2(5) x ro, folded m3_def]
  have m3: "blocker m3 5 = Some {1, 3}" "dependency m3 3 = Some {5}"
    using r2(4) r2(3)[of 3] m2 by auto
  have p3: "pending m3 = pending m"
    by (simp add: m3_def removeDependency_def m2 Let_def removeDependency_step_def)
  note r3 = removeDependency_props[OF m3(2) x ro, folded m4_def]
  have m4: "blocker m4 5 = Some {1}" using r3(4) m3 by auto
  have p4: "pending m4 = pending m"
    by (simp add: m4_def removeDependency_def m3 Let_def removeDependency_step_def p3)
  show ?thesis
    using m m2 m3 m4 p4
    unfolding m4_def[symmetric, unfolded m3_def m2_def m1_def m_def]
    by (simp add: isBlocked_def m4_def[symmetric] m3_def[symmetric] m2_def[symmetric]
        m1_def[symmetric] m_def[symmetric])
qed

section \<open>The three lists stay disjoint\<close>

lemma lists_ok_New: "lists_ok (newStatusManager n)"
  by (simp add: lists_ok_def newStatusManager_def sorted_map distinct_map inj_on_def
      sorted_wrt_iff_nth_less)

lemma lists_ok_pushPending:
  assumes "lists_ok m" "tx \<notin> set (inProgress m)" "tx \<notin> set (complete m)"
  shows "lists_ok (pushPending m tx)"
  using assms
  by (auto simp: lists_ok_def pushPending_def sorted_insertInList distinct_insertInList
      insertInList_set)

lemma lists_ok_takeNextPending: "lists_ok m \<Longrightarrow> lists_ok (snd (takeNextPending m))"
proof (cases "pending m")
  case Nil
  assume "lists_ok m"
  then show ?thesis using Nil by (simp add: takeNextPending_def)
next
  case (Cons x xs)
  assume ok: "lists_ok m"
  have m': "snd (takeNextPending m) = m\<lparr> pending := xs, inProgress := insertInList (inProgress m) x \<rparr>"
    using Cons by (simp add: takeNextPending_def Let_def)
  have "x \<notin> set xs" "sorted xs" "distinct xs" "x \<notin> set (complete m)"
    "set xs \<inter> set (inProgress m) = {}" "set xs \<inter> set (complete m) = {}"
    using ok Cons by (auto simp: lists_ok_def)
  then show ?thesis
    unfolding m' using ok
    by (auto simp: lists_ok_def sorted_insertInList distinct_insertInList insertInList_set)
qed

lemma removeFromList_expected:
  "removeFromList l v True = Inr l' \<Longrightarrow> v \<in> set l"
  unfolding removeFromList_def Let_def by (metis nth_mem sum.distinct(1))

lemma lists_ok_markComplete:
  assumes "lists_ok m" "markComplete m tx = Inr m'" shows "lists_ok m'"
proof -
  from assms(2) obtain l where l: "removeFromList (inProgress m) tx True = Inr l"
    and m': "m' = m\<lparr> inProgress := l, complete := insertInList (complete m) tx \<rparr>"
    by (auto simp: markComplete_def split: sum.splits)
  have s: "sorted (inProgress m)" "distinct (inProgress m)" using assms(1) by (auto simp: lists_ok_def)
  note p = removeFromList_props[OF s l]
  have "tx \<in> set (inProgress m)" using removeFromList_expected[OF l] .
  then have "tx \<notin> set (pending m)" using assms(1) by (auto simp: lists_ok_def)
  then show ?thesis
    unfolding m' using assms(1) p
    by (auto simp: lists_ok_def sorted_insertInList distinct_insertInList insertInList_set)
qed

lemma lists_ok_clear:
  assumes "lists_ok m"
  shows "clearInProgress m tx = Inr m' \<Longrightarrow> lists_ok m'"
    and "clearComplete m tx = Inr m' \<Longrightarrow> lists_ok m'"
    and "clearPending m tx = Inr m' \<Longrightarrow> lists_ok m'"
proof -
  have s: "sorted (inProgress m)" "distinct (inProgress m)" "sorted (complete m)"
    "distinct (complete m)" "sorted (pending m)" "distinct (pending m)"
    using assms by (auto simp: lists_ok_def)
  {
    assume "clearInProgress m tx = Inr m'"
    then obtain l where l: "removeFromList (inProgress m) tx True = Inr l"
      and m': "m' = m\<lparr> inProgress := l \<rparr>"
      by (auto simp: clearInProgress_def split: sum.splits)
    show "lists_ok m'" unfolding m' using assms removeFromList_props[OF s(1,2) l]
      by (auto simp: lists_ok_def)
  }
  {
    assume "clearComplete m tx = Inr m'"
    then obtain l where l: "removeFromList (complete m) tx False = Inr l"
      and m': "m' = m\<lparr> complete := l \<rparr>"
      by (auto simp: clearComplete_def split: sum.splits)
    show "lists_ok m'" unfolding m' using assms removeFromList_props[OF s(3,4) l]
      by (auto simp: lists_ok_def)
  }
  {
    assume "clearPending m tx = Inr m'"
    then obtain l where l: "removeFromList (pending m) tx False = Inr l"
      and m': "m' = m\<lparr> pending := l \<rparr>"
      by (auto simp: clearPending_def split: sum.splits)
    show "lists_ok m'" unfolding m' using assms removeFromList_props[OF s(5,6) l]
      by (auto simp: lists_ok_def)
  }
qed

lemma lists_ok_pushPendingSet:
  "lists_ok m \<Longrightarrow> set vs \<inter> set (inProgress m) = {} \<Longrightarrow> pushPendingSet m vs = Inr m' \<Longrightarrow>
   lists_ok m'"
proof (induction vs arbitrary: m)
  case Nil
  then show ?case by simp
next
  case (Cons v vs)
  have vi: "v \<notin> set (inProgress m)" using Cons.prems(2) by auto
  show ?case
  proof (cases "checkComplete m v")
    case True
    then obtain m1 where m1: "clearComplete m v = Inr m1"
      and r: "pushPendingSet (pushPending m1 v) vs = Inr m'"
      using Cons.prems(3) by (auto split: sum.splits)
    have ok1: "lists_ok m1" using lists_ok_clear(2)[OF Cons.prems(1) m1] .
    from m1 obtain l where l: "removeFromList (complete m) v False = Inr l"
      and m1e: "m1 = m\<lparr> complete := l \<rparr>"
      by (auto simp: clearComplete_def split: sum.splits)
    have "sorted (complete m)" "distinct (complete m)" using Cons.prems(1) by (auto simp: lists_ok_def)
    from removeFromList_props[OF this l] have "v \<notin> set (complete m1)" by (simp add: m1e)
    moreover have ip: "inProgress m1 = inProgress m" by (simp add: m1e)
    ultimately have ok2: "lists_ok (pushPending m1 v)"
      using lists_ok_pushPending[OF ok1] vi by simp
    have "set vs \<inter> set (inProgress (pushPending m1 v)) = {}"
      using Cons.prems(2) ip by (auto simp: pushPending_def)
    from Cons.IH[OF ok2 this r] show ?thesis .
  next
    case False
    then have r: "pushPendingSet (pushPending m v) vs = Inr m'" using Cons.prems(3) by simp
    have "sorted (complete m)" using Cons.prems(1) by (simp add: lists_ok_def)
    then have "v \<notin> set (complete m)" using False checkComplete_iff by blast
    then have ok2: "lists_ok (pushPending m v)" using lists_ok_pushPending[OF Cons.prems(1) vi] by simp
    have "set vs \<inter> set (inProgress (pushPending m v)) = {}"
      using Cons.prems(2) by (auto simp: pushPending_def)
    from Cons.IH[OF ok2 this r] show ?thesis .
  qed
qed

lemma lists_ok_blocker_update [simp]: "lists_ok (m\<lparr> blocker := b \<rparr>) = lists_ok m"
  by (simp add: lists_ok_def)

lemma lists_ok_dependency_update [simp]: "lists_ok (m\<lparr> dependency := b \<rparr>) = lists_ok m"
  by (simp add: lists_ok_def)

lemma lists_ok_removeDependency_step:
  assumes "lists_ok m" shows "lists_ok (removeDependency_step tx k m)"
proof -
  define m1 where "m1 = (case blocker m k of None \<Rightarrow> m
                | Some s \<Rightarrow> m\<lparr> blocker := (blocker m)(k \<mapsto> s - {tx}) \<rparr>)"
  have ok1: "lists_ok m1" using assms by (simp add: m1_def split: option.splits)
  have "\<not> checkComplete m1 k \<and> \<not> checkInProgress m1 k \<Longrightarrow> lists_ok (pushPending m1 k)"
  proof -
    assume a: "\<not> checkComplete m1 k \<and> \<not> checkInProgress m1 k"
    have "sorted (complete m1)" "sorted (inProgress m1)" using ok1 by (auto simp: lists_ok_def)
    then have "k \<notin> set (complete m1)" "k \<notin> set (inProgress m1)"
      using a checkComplete_iff checkInProgress_iff by blast+
    then show ?thesis using lists_ok_pushPending[OF ok1] by simp
  qed
  then show ?thesis
    unfolding removeDependency_step_def m1_def[symmetric] Let_def using ok1 by auto
qed

lemma lists_ok_removeDependency:
  assumes "lists_ok m" shows "lists_ok (removeDependency ks m tx)"
proof -
  have "lists_ok (fold (removeDependency_step tx) ks m)"
    using assms by (induction ks arbitrary: m) (simp_all add: lists_ok_removeDependency_step)
  then show ?thesis using assms
    by (auto simp: removeDependency_def Let_def split: option.splits)
qed

lemma sm_reachable_lists_ok: "sm_reachable m \<Longrightarrow> lists_ok m"
proof (induction rule: sm_reachable.induct)
  case (sm_New n)
  show ?case by (rule lists_ok_New)
next
  case (sm_takeNextPending m)
  then show ?case by (simp add: lists_ok_takeNextPending)
next
  case (sm_markComplete m tx m')
  then show ?case using lists_ok_markComplete by blast
next
  case (sm_pushPending m tx)
  then show ?case by (simp add: lists_ok_pushPending)
next
  case (sm_pushPendingSet m vs m')
  then show ?case using lists_ok_pushPendingSet by blast
next
  case (sm_clearInProgress m tx m')
  then show ?case using lists_ok_clear(1) by blast
next
  case (sm_clearComplete m tx m')
  then show ?case using lists_ok_clear(2) by blast
next
  case (sm_clearPending m tx m')
  then show ?case using lists_ok_clear(3) by blast
next
  case (sm_addDependencies m b d)
  then show ?case by (simp add: lists_ok_def addDependencies_lists)
next
  case (sm_removeDependency m tx ks)
  then show ?case by (simp add: lists_ok_removeDependency)
qed

text \<open>
  C7.  In every state reached from \<open>newStatusManager\<close> by the manager's operations, where
  \<open>pushPending\<close> is only applied to an index that is neither in progress nor completed
  and \<open>pushPendingSet\<close> only to indices that are not in progress (and a call that
  panics produces no state), no index is in two of the three lists.
\<close>

theorem lists_disjoint:
  "sm_reachable m \<Longrightarrow>
   set (pending m) \<inter> set (inProgress m) = {}
   \<and> set (pending m) \<inter> set (complete m) = {}
   \<and> set (inProgress m) \<inter> set (complete m) = {}"
  using sm_reachable_lists_ok[of m] by (simp add: lists_ok_def)

theorem lists_disjoint_witness:
  "sm_reachable (snd (takeNextPending (newStatusManager 2)))
   \<and> pending (snd (takeNextPending (newStatusManager 2))) = [1]
   \<and> inProgress (snd (takeNextPending (newStatusManager 2))) = [0]
   \<and> set (pending (snd (takeNextPending (newStatusManager 2))))
       \<inter> set (inProgress (snd (takeNextPending (newStatusManager 2)))) = {}"
proof -
  have r: "sm_reachable (snd (takeNextPending (newStatusManager 2)))"
    by (rule sm_takeNextPending[OF sm_New])
  have e: "pending (snd (takeNextPending (newStatusManager 2))) = [1]"
    "inProgress (snd (takeNextPending (newStatusManager 2))) = [0]"
    by (simp_all add: takeNextPending_def newStatusManager_def insertInList_def upt_rec)
  from lists_disjoint[OF r] r e show ?thesis by simp
qed

text \<open>
  The claim as stated, for any sequence of the operations, fails: \<open>pushPending\<close> does
  not look at the other two lists, so pushing the index that \<open>takeNextPending\<close> has
  just moved to in-progress leaves it in both lists.
\<close>

theorem lists_disjoint_counterexample:
  "pending (pushPending (snd (takeNextPending (newStatusManager 1))) 0) = [0]
   \<and> inProgress (pushPending (snd (takeNextPending (newStatusManager 1))) 0) = [0]"
  by (simp add: pushPending_def takeNextPending_def newStatusManager_def insertInList_def)

end
